theory Spec2Isabelle
  imports Main
begin

section \<open>Python values\<close>

text \<open>
  The keyword arguments of the pool are dynamically typed: a user name is a string or
  \<open>None\<close>, a limit is an integer or \<open>None\<close>, a traversal source is a dictionary or
  \<open>None\<close>. The pool only ever tests them for truth (\<open>x or default\<close>) and forwards them.
  A numeric timeout is represented by \<open>PInt\<close>: the truth test separates zero from
  non-zero and nothing else is computed with it.
\<close>

datatype pyval = PNone | PStr string | PInt int | PDict "(string \<times> string) list"

fun truthy :: "pyval \<Rightarrow> bool" where
  "truthy PNone = False"
| "truthy (PStr s) = (s \<noteq> [])"
| "truthy (PInt n) = (n \<noteq> 0)"
| "truthy (PDict kv) = (kv \<noteq> [])"

definition py_or :: "pyval \<Rightarrow> pyval \<Rightarrow> pyval" where
  "py_or x y = (if truthy x then x else y)"

datatype error = ValueError | AttributeError | IndexError | OpenFailed | CloseFailed

section \<open>Connections and pooled connections\<close>

record conn_params =
  p_username :: pyval
  p_password :: pyval
  p_lang :: pyval
  p_traversal_source :: pyval
  p_max_inflight :: pyval
  p_response_timeout :: pyval

text \<open>
  A \<open>Connection\<close> is the transport object of \<open>goblin.driver.connection\<close>. The pool reads
  its \<open>closed\<close> flag and calls \<open>open\<close> and \<open>close\<close>; the record keeps, besides the flag,
  the arguments the connection was opened with.
\<close>

record connection =
  closed :: bool
  c_url :: string
  c_ssl_context :: pyval
  opened_with :: conn_params

text \<open>
  \<open>PooledConnection\<close>: the fields \<open>_conn\<close>, \<open>_pool\<close> and \<open>_times_acquired\<close>. Objects are
  referred to by their index in a store, so \<open>conn\<close> is a reference into the store of
  connections, \<open>None\<close> once \<open>PooledConnection.close\<close> has cleared it. There is one pool,
  so \<open>pool_ref\<close> only records whether \<open>_pool\<close> is still set.
\<close>

record pooled_connection =
  conn :: "nat option"
  pool_ref :: bool
  times_acquired :: int

section \<open>The pool\<close>

text \<open>
  The fields of \<open>ConnectionPool\<close>, followed by what the pool shares with the rest of
  the program: the two object stores (\<open>objs\<close> for pooled connections, \<open>conns\<close> for
  connections), the lock of \<open>_condition\<close>, the number of \<open>_notify\<close> tasks handed to the
  event loop, the frame of the acquirer suspended in \<open>_get_connection\<close> (\<open>open_frame\<close>), and
  the pooled connections that \<open>close\<close> has handed to \<open>asyncio.gather\<close> (\<open>waiters\<close>).
  The deques \<open>_available\<close> and \<open>_acquired\<close> hold references, leftmost element first.
\<close>

record pool_state =
  url :: string
  ssl_context :: pyval
  username :: pyval
  password :: pyval
  lang :: pyval
  traversal_source :: pyval
  response_timeout :: pyval
  max_conns :: int
  min_conns :: int
  max_times_acquired :: int
  max_inflight :: pyval
  available :: "nat list"
  acquired :: "nat list"
  objs :: "pooled_connection list"
  conns :: "connection list"
  locked :: bool
  notify_tasks :: nat
  open_frame :: "conn_params option"
  waiters :: "nat list"

text \<open>\<open>ConnectionPool.__init__\<close>: both deques empty, nothing opened yet.\<close>

definition ConnectionPool ::
  "string \<Rightarrow> pyval \<Rightarrow> pyval \<Rightarrow> pyval \<Rightarrow> pyval \<Rightarrow> pyval \<Rightarrow> pyval \<Rightarrow> int \<Rightarrow> int \<Rightarrow> int \<Rightarrow> pyval
   \<Rightarrow> pool_state" where
  "ConnectionPool u ssl usr pw lg ts rt maxc minc mta mi =
     \<lparr>url = u, ssl_context = ssl, username = usr, password = pw, lang = lg,
      traversal_source = ts, response_timeout = rt, max_conns = maxc, min_conns = minc,
      max_times_acquired = mta, max_inflight = mi, available = [], acquired = [],
      objs = [], conns = [], locked = False, notify_tasks = 0, open_frame = None,
      waiters = []\<rparr>"

text \<open>The pool of the constructor's defaults, with the given three limits.\<close>

definition default_pool :: "int \<Rightarrow> int \<Rightarrow> int \<Rightarrow> pool_state" where
  "default_pool maxc minc mta =
     ConnectionPool ''ws://localhost:8182/'' PNone (PStr '''') (PStr '''')
       (PStr ''gremlin-groovy'') PNone PNone maxc minc mta (PInt 64)"

text \<open>
  Modelled from the spec: \<open>Connection.open\<close> and \<open>Connection.close\<close> live in
  \<open>goblin/driver/connection.py\<close>, which is not among the sources. The specification
  gives the collaborator's contract: \<open>open(url, authParams, limits)\<close> yields an opened
  transport session or fails; \<open>closed\<close> is a boolean that is set once and never cleared;
  \<open>close()\<close> closes the session. Whether the network operation succeeds is decided by the
  environment and passed in as a boolean.
\<close>

definition Connection_open :: "bool \<Rightarrow> string \<Rightarrow> pyval \<Rightarrow> conn_params \<Rightarrow> error + connection" where
  "Connection_open net_ok u ssl p =
     (if net_ok then Inr \<lparr>closed = False, c_url = u, c_ssl_context = ssl, opened_with = p\<rparr>
      else Inl OpenFailed)"

definition Connection_close :: "bool \<Rightarrow> connection \<Rightarrow> error + connection" where
  "Connection_close net_ok c = (if net_ok then Inr (c\<lparr>closed := True\<rparr>) else Inl CloseFailed)"

subsection \<open>PooledConnection\<close>

text \<open>The property \<open>closed\<close>: \<open>self._conn.closed\<close>, an attribute error when \<open>_conn\<close> is \<open>None\<close>.\<close>

definition pc_closed :: "pool_state \<Rightarrow> nat \<Rightarrow> error + bool" where
  "pc_closed s c =
     (case conn (objs s ! c) of
        None \<Rightarrow> Inl AttributeError
      | Some k \<Rightarrow> Inr (closed (conns s ! k)))"

definition times :: "pool_state \<Rightarrow> nat \<Rightarrow> int" where
  "times s c = times_acquired (objs s ! c)"

definition increment_acquired :: "nat \<Rightarrow> pool_state \<Rightarrow> pool_state" where
  "increment_acquired c s =
     s\<lparr>objs := (objs s)[c := (objs s ! c)\<lparr>times_acquired := times_acquired (objs s ! c) + 1\<rparr>]\<rparr>"

definition decrement_acquired :: "nat \<Rightarrow> pool_state \<Rightarrow> pool_state" where
  "decrement_acquired c s =
     s\<lparr>objs := (objs s)[c := (objs s ! c)\<lparr>times_acquired := times_acquired (objs s ! c) - 1\<rparr>]\<rparr>"

text \<open>
  \<open>PooledConnection.close\<close>: await the connection's \<open>close\<close>, then clear both references.
  When the connection's \<open>close\<close> raises, the two assignments are not reached.
\<close>

definition pc_close :: "bool \<Rightarrow> nat \<Rightarrow> pool_state \<Rightarrow> (error + unit) \<times> pool_state" where
  "pc_close net_ok c s =
     (case conn (objs s ! c) of
        None \<Rightarrow> (Inl AttributeError, s)
      | Some k \<Rightarrow>
          (case Connection_close net_ok (conns s ! k) of
             Inl e \<Rightarrow> (Inl e, s)
           | Inr cn \<Rightarrow>
               (Inr (), s\<lparr>conns := (conns s)[k := cn],
                          objs := (objs s)[c := (objs s ! c)\<lparr>conn := None, pool_ref := False\<rparr>]\<rparr>)))"

subsection \<open>Opening connections\<close>

text \<open>\<open>_get_connection\<close>: open a connection and wrap it in a new \<open>PooledConnection\<close>.\<close>

definition get_connection :: "bool \<Rightarrow> conn_params \<Rightarrow> pool_state \<Rightarrow> (error + nat) \<times> pool_state" where
  "get_connection net_ok p s =
     (case Connection_open net_ok (url s) (ssl_context s) p of
        Inl e \<Rightarrow> (Inl e, s)
      | Inr c \<Rightarrow>
          (Inr (length (objs s)),
           s\<lparr>conns := conns s @ [c],
             objs := objs s @ [\<lparr>conn = Some (length (conns s)), pool_ref = True,
                                times_acquired = 0\<rparr>]\<rparr>))"

definition default_params :: "pool_state \<Rightarrow> conn_params" where
  "default_params s =
     \<lparr>p_username = username s, p_password = password s, p_lang = lang s,
      p_traversal_source = traversal_source s, p_max_inflight = max_inflight s,
      p_response_timeout = response_timeout s\<rparr>"

text \<open>
  \<open>init_pool\<close>: \<open>range(self._min_conns)\<close> iterations, each awaiting one open before the
  next starts. The list gives the outcome of the successive opens (a missing entry is a
  success); a failed open raises out of the loop and leaves what was appended so far.
\<close>

fun init_pool_loop :: "nat \<Rightarrow> bool list \<Rightarrow> pool_state \<Rightarrow> (error + unit) \<times> pool_state" where
  "init_pool_loop 0 oks s = (Inr (), s)"
| "init_pool_loop (Suc n) oks s =
     (case get_connection (case oks of [] \<Rightarrow> True | b # _ \<Rightarrow> b) (default_params s) s of
        (Inl e, s1) \<Rightarrow> (Inl e, s1)
      | (Inr c, s1) \<Rightarrow> init_pool_loop n (tl oks) (s1\<lparr>available := available s1 @ [c]\<rparr>))"

definition init_pool :: "bool list \<Rightarrow> pool_state \<Rightarrow> (error + unit) \<times> pool_state" where
  "init_pool oks s = init_pool_loop (nat (min_conns s)) oks s"

subsection \<open>release\<close>

text \<open>\<open>deque.remove(x)\<close> removes the first occurrence and raises \<open>ValueError\<close> when there is none.\<close>

definition deque_remove :: "nat \<Rightarrow> nat list \<Rightarrow> error + nat list" where
  "deque_remove x q = (if x \<in> set q then Inr (remove1 x q) else Inl ValueError)"

text \<open>\<open>self._loop.create_task(self._notify())\<close>: one more notification task is scheduled.\<close>

definition create_notify_task :: "pool_state \<Rightarrow> pool_state" where
  "create_notify_task s = s\<lparr>notify_tasks := notify_tasks s + 1\<rparr>"

text \<open>
  \<open>ConnectionPool.release\<close>. It is a plain function: it runs without suspension and it
  does not take the lock. An exception leaves the mutations made before it.
\<close>

definition release :: "nat \<Rightarrow> pool_state \<Rightarrow> (error + unit) \<times> pool_state" where
  "release c s =
     (case pc_closed s c of
        Inl e \<Rightarrow> (Inl e, s)
      | Inr True \<Rightarrow>
          (case deque_remove c (acquired s) of
             Inl e \<Rightarrow> (Inl e, s)
           | Inr q \<Rightarrow> (Inr (), create_notify_task (s\<lparr>acquired := q\<rparr>)))
      | Inr False \<Rightarrow>
          (let s1 = decrement_acquired c s in
           if times s1 c \<noteq> 0 then (Inr (), create_notify_task s1)
           else
             (case deque_remove c (acquired s1) of
                Inl e \<Rightarrow> (Inl e, s1)
              | Inr q \<Rightarrow>
                  (Inr (), create_notify_task (s1\<lparr>acquired := q,
                                                 available := available s1 @ [c]\<rparr>)))))"

subsection \<open>acquire\<close>

text \<open>Lines 170 to 175: every argument is replaced by the pool's value when it is falsy.\<close>

definition effective_params :: "conn_params \<Rightarrow> pool_state \<Rightarrow> conn_params" where
  "effective_params a s =
     \<lparr>p_username = py_or (p_username a) (username s),
      p_password = py_or (p_password a) (password s),
      p_lang = py_or (p_lang a) (lang s),
      p_traversal_source = py_or (p_traversal_source a) (traversal_source s),
      p_max_inflight = py_or (p_max_inflight a) (max_inflight s),
      p_response_timeout = py_or (p_response_timeout a) (response_timeout s)\<rparr>"

text \<open>
  The inner \<open>while self._available\<close> loop: pop from the left until an entry is not closed.
  The result is that entry, if any, and what is left of the deque.
\<close>

fun reuse_scan :: "pool_state \<Rightarrow> nat list \<Rightarrow> (error + nat option) \<times> nat list" where
  "reuse_scan s [] = (Inr None, [])"
| "reuse_scan s (c # q) =
     (case pc_closed s c of
        Inl e \<Rightarrow> (Inl e, q)
      | Inr True \<Rightarrow> reuse_scan s q
      | Inr False \<Rightarrow> (Inr (Some c), q))"

text \<open>
  The \<open>for x in range(len(self._acquired))\<close> loop, with the number of iterations left:
  pop from the left, return the entry if its counter is below the limit, and in both
  cases append it on the right. \<open>popleft\<close> on an empty deque raises \<open>IndexError\<close>.
\<close>

fun rotate_scan :: "nat \<Rightarrow> pool_state \<Rightarrow> nat list \<Rightarrow> (error + nat option) \<times> nat list" where
  "rotate_scan 0 s q = (Inr None, q)"
| "rotate_scan (Suc n) s [] = (Inl IndexError, [])"
| "rotate_scan (Suc n) s (c # q) =
     (if times s c < max_times_acquired s then (Inr (Some c), q @ [c])
      else rotate_scan n s (q @ [c]))"

text \<open>
  A coroutine runs until it returns, raises or suspends. \<open>acquire\<close> suspends at two
  places: in the create branch, awaiting \<open>_get_connection\<close> inside the
  \<open>async with self._condition\<close> block, and in \<open>self._condition.wait()\<close>, which gives the
  lock up until the waiter is notified.
\<close>

datatype acquire_result = Returned nat | Raised error | AwaitOpen conn_params | AwaitCondition

text \<open>
  One pass through the body of \<open>while True\<close>, entered with the lock held. Leaving the
  \<open>async with\<close> block (by \<open>return\<close> or by an exception) releases the lock.
\<close>

definition acquire_iter :: "conn_params \<Rightarrow> pool_state \<Rightarrow> acquire_result \<times> pool_state" where
  "acquire_iter p s =
     (case reuse_scan s (available s) of
        (Inl e, q) \<Rightarrow> (Raised e, s\<lparr>available := q, locked := False\<rparr>)
      | (Inr (Some c), q) \<Rightarrow>
          (Returned c,
           (increment_acquired c s)\<lparr>available := q, acquired := acquired s @ [c],
                                    locked := False\<rparr>)
      | (Inr None, q) \<Rightarrow>
          (let s1 = s\<lparr>available := q\<rparr> in
           if int (length (acquired s1)) < max_conns s1
           then (AwaitOpen p, s1\<lparr>open_frame := Some p\<rparr>)
           else
             (case rotate_scan (length (acquired s1)) s1 (acquired s1) of
                (Inl e, q') \<Rightarrow> (Raised e, s1\<lparr>acquired := q', locked := False\<rparr>)
              | (Inr (Some c), q') \<Rightarrow>
                  (Returned c, (increment_acquired c s1)\<lparr>acquired := q', locked := False\<rparr>)
              | (Inr None, q') \<Rightarrow>
                  (AwaitCondition, s1\<lparr>acquired := q', locked := False\<rparr>))))"

text \<open>
  The rest of the create branch, run when the awaited open completes: lines 185 to 191.
  The deque is read again at this point.
\<close>

definition acquire_opened :: "bool \<Rightarrow> conn_params \<Rightarrow> pool_state \<Rightarrow> acquire_result \<times> pool_state" where
  "acquire_opened net_ok p s =
     (case get_connection net_ok p s of
        (Inl e, s1) \<Rightarrow> (Raised e, s1\<lparr>open_frame := None, locked := False\<rparr>)
      | (Inr c, s1) \<Rightarrow>
          (Returned c,
           (increment_acquired c s1)\<lparr>acquired := acquired s1 @ [c], open_frame := None,
                                     locked := False\<rparr>))"

text \<open>
  \<open>acquire\<close> up to its first suspension: compute the effective arguments, take the lock,
  run the loop body. A waiter that is woken takes the lock again and runs the loop body
  from the top with the same arguments.
\<close>

definition acquire :: "conn_params \<Rightarrow> pool_state \<Rightarrow> acquire_result \<times> pool_state" where
  "acquire a s = acquire_iter (effective_params a s) (s\<lparr>locked := True\<rparr>)"

text \<open>The call \<open>acquire()\<close> without arguments: every keyword is \<open>None\<close>.\<close>

definition no_overrides :: conn_params where
  "no_overrides =
     \<lparr>p_username = PNone, p_password = PNone, p_lang = PNone, p_traversal_source = PNone,
      p_max_inflight = PNone, p_response_timeout = PNone\<rparr>"

subsection \<open>close\<close>

text \<open>
  The close coroutines handed to \<open>asyncio.gather\<close> run as tasks of the event loop; a
  task that finishes runs \<open>PooledConnection.close\<close> to its end or to its exception,
  whether or not anybody looks at the outcome.
\<close>

fun finish_closes :: "(nat \<Rightarrow> bool) \<Rightarrow> nat list \<Rightarrow> pool_state \<Rightarrow> pool_state" where
  "finish_closes ok [] s = s"
| "finish_closes ok (c # cs) s = finish_closes ok cs (snd (pc_close (ok c) c s))"

text \<open>
  \<open>asyncio.gather(*waiters)\<close> without \<open>return_exceptions\<close>. The list is the order in
  which the close tasks finish, and \<open>ok c\<close> tells whether the close of the connection
  of \<open>c\<close> succeeds. When all tasks have finished without an exception, the awaiting
  coroutine resumes. The first task that raises makes \<open>gather\<close> set that exception on
  its future; the awaiting coroutine is resumed with it a few iterations of the event
  loop later, and the close tasks that finish in between have run by then: \<open>late\<close> is
  their number, chosen by the environment. The tasks that have not finished when the
  awaiting coroutine resumes are neither awaited nor cancelled. The state returned is
  the state at the moment the \<open>await\<close> in \<open>close\<close> returns or raises.
\<close>

fun gather ::
  "(nat \<Rightarrow> bool) \<Rightarrow> nat \<Rightarrow> nat list \<Rightarrow> pool_state \<Rightarrow> (error + unit) \<times> pool_state" where
  "gather ok late [] s = (Inr (), s)"
| "gather ok late (c # cs) s =
     (case pc_close (ok c) c s of
        (Inl e, s1) \<Rightarrow> (Inl e, finish_closes ok (take late cs) s1)
      | (Inr u, s1) \<Rightarrow> gather ok late cs s1)"

text \<open>
  \<open>ConnectionPool.close\<close>: both \<open>while\<close> loops pop every entry, \<open>available\<close> first, without
  suspension and without taking the lock; then the closes are gathered. \<open>finish c\<close> is
  the time at which the close task of \<open>c\<close> finishes, so the tasks finish in the order
  \<open>sort_key finish\<close> of the popped entries.
\<close>

definition close ::
  "(nat \<Rightarrow> bool) \<Rightarrow> (nat \<Rightarrow> nat) \<Rightarrow> nat \<Rightarrow> pool_state \<Rightarrow> (error + unit) \<times> pool_state" where
  "close ok finish late s =
     (let ws = available s @ acquired s
      in gather ok late (sort_key finish ws)
           (s\<lparr>available := [], acquired := [], waiters := waiters s @ ws\<rparr>))"

section \<open>The pool and its callers\<close>

text \<open>
  The server or the network may close a connection at any time: its \<open>closed\<close> flag
  becomes true (and, by the collaborator's contract, stays true).
\<close>

definition conn_lost :: "nat \<Rightarrow> pool_state \<Rightarrow> pool_state" where
  "conn_lost c s =
     (case conn (objs s ! c) of
        None \<Rightarrow> s
      | Some k \<Rightarrow> s\<lparr>conns := (conns s)[k := (conns s ! k)\<lparr>closed := True\<rparr>]\<rparr>)"

text \<open>
  What can happen to a pool, one uninterrupted piece of code at a time: a call of
  \<open>init_pool\<close>; a call of \<open>acquire\<close> (or the retry of a woken waiter, which runs the same
  code with the same arguments) up to its return or suspension; the completion of the
  open awaited in the create branch; a call of \<open>release\<close>; a call of \<open>close\<close>; the
  completion of a close task that \<open>gather\<close> left running; the loss of a connection.
\<close>

datatype event =
    InitPool "bool list"
  | Acquire conn_params
  | Opened bool
  | Release nat
  | Close "nat \<Rightarrow> bool" "nat \<Rightarrow> nat" nat
  | CloseDone nat bool
  | ConnLost nat

text \<open>
  Beside the pool, the second component lists the pooled connections the callers hold:
  one entry for each \<open>acquire\<close> that has returned and has not been matched by a
  \<open>release\<close> yet.
\<close>

fun step :: "event \<Rightarrow> pool_state \<times> nat list \<Rightarrow> pool_state \<times> nat list" where
  "step (InitPool oks) (s, h) = (snd (init_pool oks s), h)"
| "step (Acquire a) (s, h) =
     (case acquire a s of
        (Returned c, s') \<Rightarrow> (s', h @ [c])
      | (r, s') \<Rightarrow> (s', h))"
| "step (Opened net_ok) (s, h) =
     (case open_frame s of
        None \<Rightarrow> (s, h)
      | Some p \<Rightarrow>
          (case acquire_opened net_ok p s of
             (Returned c, s') \<Rightarrow> (s', h @ [c])
           | (r, s') \<Rightarrow> (s', h)))"
| "step (Release c) (s, h) = (snd (release c s), remove1 c h)"
| "step (Close ok finish late) (s, h) = (snd (close ok finish late s), h)"
| "step (CloseDone c net_ok) (s, h) = (snd (pc_close net_ok c s), h)"
| "step (ConnLost c) (s, h) = (conn_lost c s, h)"

text \<open>
  When an event can happen: \<open>acquire\<close> gets past \<open>async with self._condition\<close> only when
  the lock is free; an open completes only if one is awaited; a caller releases a
  connection it holds; a close task completes only for a connection handed to \<open>close\<close>;
  only an existing connection is lost.
\<close>

fun enabled :: "event \<Rightarrow> pool_state \<times> nat list \<Rightarrow> bool" where
  "enabled (InitPool oks) (s, h) = True"
| "enabled (Acquire a) (s, h) = (\<not> locked s)"
| "enabled (Opened net_ok) (s, h) = (open_frame s \<noteq> None)"
| "enabled (Release c) (s, h) = (c \<in> set h)"
| "enabled (Close ok finish late) (s, h) = True"
| "enabled (CloseDone c net_ok) (s, h) = (c \<in> set (waiters s))"
| "enabled (ConnLost c) (s, h) = (c < length (objs s))"

fun run :: "event list \<Rightarrow> pool_state \<times> nat list \<Rightarrow> pool_state \<times> nat list" where
  "run [] w = w"
| "run (e # es) w = run es (step e w)"

fun legal :: "event list \<Rightarrow> pool_state \<times> nat list \<Rightarrow> bool" where
  "legal [] w = True"
| "legal (e # es) w = (enabled e w \<and> legal es (step e w))"

fun is_init :: "event \<Rightarrow> bool" where
  "is_init (InitPool oks) = True"
| "is_init e = False"

definition tracked :: "pool_state \<Rightarrow> nat" where
  "tracked s = length (available s) + length (acquired s)"

text \<open>
  The whole \<open>while True\<close> loop of \<open>acquire\<close> for a caller that is never suspended in
  the create branch: the list gives, for each time the caller waits on the condition,
  what the other tasks do to the pool before it is woken. With the list used up, the
  result is that of the last pass, \<open>AwaitCondition\<close> if the caller is still waiting.
\<close>

fun acquire_loop ::
  "(pool_state \<Rightarrow> pool_state) list \<Rightarrow> conn_params \<Rightarrow> pool_state \<Rightarrow> acquire_result \<times> pool_state" where
  "acquire_loop [] p s = acquire_iter p (s\<lparr>locked := True\<rparr>)"
| "acquire_loop (others # env) p s =
     (case acquire_iter p (s\<lparr>locked := True\<rparr>) of
        (AwaitCondition, s') \<Rightarrow> acquire_loop env p (others s')
      | r \<Rightarrow> r)"

subsection \<open>The capacity invariant\<close>

text \<open>
  The tracked connections, plus the one being opened by an acquirer suspended in the
  create branch, do not exceed \<open>max_conns\<close>; and an acquirer suspended there holds the
  lock, so that no second acquirer can enter the loop.
\<close>

definition cap_inv :: "pool_state \<Rightarrow> bool" where
  "cap_inv s =
     (int (tracked s) + (if open_frame s = None then 0 else 1) \<le> max_conns s \<and>
      (open_frame s \<noteq> None \<longrightarrow> locked s))"

subsection \<open>The tracking invariant\<close>

text \<open>
  The invariant, on the two deques \<open>A\<close> and \<open>Q\<close>, the two stores, the connections
  handed to \<open>close\<close> and the connections held by callers: no entry is tracked twice;
  an idle entry has counter 0 and no holder; the counter of a lent entry is the number
  of callers that hold it, at least one; a tracked entry exists, has its connection
  and was not handed to \<open>close\<close>; every reference is to an existing object; and a
  pooled connection that is tracked nowhere was handed to \<open>close\<close> or has a closed
  connection.
\<close>

definition tinv ::
  "nat list \<Rightarrow> nat list \<Rightarrow> pooled_connection list \<Rightarrow> connection list \<Rightarrow> nat list \<Rightarrow> nat list
   \<Rightarrow> bool" where
  "tinv A Q ob C W h =
     (distinct (A @ Q) \<and>
      (\<forall>c \<in> set A. times_acquired (ob ! c) = 0 \<and> count_list h c = 0) \<and>
      (\<forall>c \<in> set Q. times_acquired (ob ! c) = int (count_list h c) \<and> 0 < count_list h c) \<and>
      (\<forall>c \<in> set A \<union> set Q. c < length ob \<and> conn (ob ! c) \<noteq> None \<and> c \<notin> set W) \<and>
      (\<forall>c \<in> set h \<union> set W. c < length ob) \<and>
      (\<forall>c < length ob. \<forall>k. conn (ob ! c) = Some k \<longrightarrow> k < length C) \<and>
      (\<forall>c < length ob. c \<in> set A \<union> set Q \<or> c \<in> set W \<or>
         (\<exists>k. conn (ob ! c) = Some k \<and> closed (C ! k))))"

definition track_inv :: "pool_state \<times> nat list \<Rightarrow> bool" where
  "track_inv w =
     tinv (available (fst w)) (acquired (fst w)) (objs (fst w)) (conns (fst w))
       (waiters (fst w)) (snd w)"

text \<open>The store after \<open>increment_acquired\<close> (\<open>d = 1\<close>) or \<open>decrement_acquired\<close> (\<open>d = - 1\<close>).\<close>

definition bump :: "int \<Rightarrow> nat \<Rightarrow> pooled_connection list \<Rightarrow> pooled_connection list" where
  "bump d c ob = ob[c := (ob ! c)\<lparr>times_acquired := times_acquired (ob ! c) + d\<rparr>]"

text \<open>The callers' holds after a step of \<open>acquire\<close>: a returned connection is held once more.\<close>

fun held_after :: "acquire_result \<Rightarrow> nat list \<Rightarrow> nat list" where
  "held_after (Returned c) h = h @ [c]"
| "held_after r h = h"

subsection \<open>Some pools\<close>

text \<open>A pool of at most four connections after \<open>init_pool\<close>: one idle connection.\<close>

definition pool_idle :: pool_state where
  "pool_idle = fst (run [InitPool []] (default_pool 4 1 16, []))"

text \<open>A pool of at most one connection, lent once, which may be lent twice.\<close>

definition pool_busy :: pool_state where
  "pool_busy = fst (run [Acquire no_overrides, Opened True] (default_pool 1 0 2, []))"

text \<open>A pool of at most one connection, lent once, which may be lent only once.\<close>

definition pool_saturated :: pool_state where
  "pool_saturated = fst (run [Acquire no_overrides, Opened True] (default_pool 1 0 1, []))"

text \<open>The same pool lent twice: one connection shared by two callers.\<close>

definition pool_shared :: pool_state where
  "pool_shared =
     fst (run [Acquire no_overrides, Opened True, Acquire no_overrides] (default_pool 1 0 16, []))"

text \<open>A pool whose only connection, lent once, has been closed by the server.\<close>

definition pool_lost :: "pool_state \<times> nat list" where
  "pool_lost = run [Acquire no_overrides, Opened True, ConnLost 0] (default_pool 1 0 16, [])"

text \<open>
  A pool whose only connection was lent to two callers and then closed by the server,
  after the first of the two has released it.
\<close>

definition pool_shared_lost :: "pool_state \<times> nat list" where
  "pool_shared_lost =
     run [Acquire no_overrides, Opened True, Acquire no_overrides, ConnLost 0, Release 0]
       (default_pool 1 0 16, [])"

fun is_await_open :: "acquire_result \<Rightarrow> bool" where
  "is_await_open (AwaitOpen p) = True"
| "is_await_open r = False"

text \<open>
  A run of a pool of at most two connections, one opened by \<open>init_pool\<close>: three
  acquires (reuse, create, multiplex), a release, the loss of the second connection
  and its release.
\<close>

definition busy_trace :: "event list" where
  "busy_trace =
     [InitPool [], Acquire no_overrides, Acquire no_overrides, Opened True,
      Acquire no_overrides, Release 0, ConnLost 1, Release 1]"

subsection \<open>Closing a pool\<close>

text \<open>
  Outcomes of the connection closes (all succeed; the close of connection 0 fails),
  a schedule in which the close tasks finish in the order of their numbers, and a pool
  with two idle connections.
\<close>

definition all_succeed :: "nat \<Rightarrow> bool" where
  "all_succeed c = True"

definition first_fails :: "nat \<Rightarrow> bool" where
  "first_fails c = (c \<noteq> 0)"

definition in_order :: "nat \<Rightarrow> nat" where
  "in_order c = c"

definition pool_two :: pool_state where
  "pool_two = fst (run [InitPool []] (default_pool 2 2 16, []))"

text \<open>The order in which the close tasks started by \<open>close\<close> finish.\<close>

definition close_order :: "(nat \<Rightarrow> nat) \<Rightarrow> pool_state \<Rightarrow> nat list" where
  "close_order finish s = sort_key finish (available s @ acquired s)"

text \<open>
  A pool of at most three connections, each of which may be lent twice: three acquires
  open the connections and three more share them, so that every counter is at the
  limit; and the same pool after the caller of connection 1 has released it.
\<close>

definition pool_full :: pool_state where
  "pool_full =
     fst (run [Acquire no_overrides, Opened True, Acquire no_overrides, Opened True,
               Acquire no_overrides, Opened True, Acquire no_overrides, Acquire no_overrides,
               Acquire no_overrides] (default_pool 3 0 2, []))"

definition pool_rotating :: pool_state where
  "pool_rotating = snd (release 1 pool_full)"

text \<open>
  A call \<open>acquire(username='alice', password='secret', max_inflight=0,
  response_timeout=5)\<close>: two arguments are left out and one is zero.
\<close>

definition some_overrides :: conn_params where
  "some_overrides =
     \<lparr>p_username = PStr ''alice'', p_password = PStr ''secret'', p_lang = PNone,
      p_traversal_source = PNone, p_max_inflight = PInt 0, p_response_timeout = PInt 5\<rparr>"

text \<open>
  A pool with two idle connections on which \<open>close\<close> was called: the close of the first
  connection failed, and \<open>close\<close> raised before the close of the second had finished.
\<close>

definition pool_close_failed :: pool_state where
  "pool_close_failed =
     fst (run [InitPool [], Close first_fails in_order 0] (default_pool 2 2 16, []))"

text \<open>A pool whose only connection was acquired once and released twice.\<close>

definition pool_double_release :: pool_state where
  "pool_double_release =
     fst (run [Acquire no_overrides, Opened True, Release 0, Release 0]
            (default_pool 1 0 16, []))"

text \<open>
  A pool whose two connections are lent out, one to each of two callers, when \<open>close\<close>
  is called; the close of the first connection fails and \<open>close\<close> raises before the
  close of the second has finished.
\<close>

definition pool_closing :: "pool_state \<times> nat list" where
  "pool_closing =
     run [InitPool [], Acquire no_overrides, Acquire no_overrides,
          Close first_fails in_order 0] (default_pool 2 2 16, [])"

section \<open>Properties of acquire\<close>

lemma py_or_falsy: "\<not> truthy x \<Longrightarrow> py_or x y = y"
  by (simp add: py_or_def)

lemma reuse_scan_none: "reuse_scan s q = (Inr None, q') \<Longrightarrow> q' = []"
  by (induction q) (auto split: sum.splits bool.splits)

lemma reuse_scan_some:
  "reuse_scan s q = (Inr (Some c), q') \<Longrightarrow> pc_closed s c = Inr False \<and> c \<in> set q"
  by (induction q) (auto split: sum.splits bool.splits)

lemma conn_times_update [simp]:
  "conn (xs[c := (xs ! c)\<lparr>times_acquired := t\<rparr>] ! d) = conn (xs ! d)"
  by (cases "c < length xs"; cases "d = c") (simp_all add: list_update_beyond)

lemma increment_conn [simp]: "conn (objs (increment_acquired c s) ! d) = conn (objs s ! d)"
  by (simp add: increment_acquired_def)

lemma increment_conns [simp]: "conns (increment_acquired c s) = conns s"
  by (simp add: increment_acquired_def)

lemma times_locked [simp]: "times (s\<lparr>locked := b\<rparr>) = times s"
  by (rule ext) (simp add: times_def)

lemma acquire_iter_returned:
  "acquire_iter p s = (Returned c, s') \<Longrightarrow>
     conns s' = conns s \<and> conn (objs s' ! c) = conn (objs s ! c)"
  unfolding acquire_iter_def
  by (auto split: prod.splits sum.splits option.splits if_splits simp: Let_def)

lemma acquire_iter_await:
  "acquire_iter p s = (AwaitOpen p', s') \<Longrightarrow> p' = p \<and> conns s' = conns s"
  unfolding acquire_iter_def
  by (auto split: prod.splits sum.splits option.splits if_splits simp: Let_def)

lemma acquire_opened_returned:
  "acquire_opened net_ok p s = (Returned c, s') \<Longrightarrow>
     conn (objs s' ! c) = Some (length (conns s)) \<and>
     opened_with (conns s' ! length (conns s)) = p \<and> c = length (objs s)"
  unfolding acquire_opened_def get_connection_def Connection_open_def
  by (auto split: prod.splits sum.splits if_splits simp: increment_acquired_def nth_append)

lemma py_or_truthy: "truthy x \<Longrightarrow> py_or x y = x"
  by (simp add: py_or_def)

lemma acquire_iter_await_frame:
  "acquire_iter p s = (AwaitOpen p', s') \<Longrightarrow> open_frame s' = Some p"
  unfolding acquire_iter_def
  by (auto split: prod.splits sum.splits option.splits if_splits simp: Let_def)

text \<open>
  C10. Every argument of \<open>acquire\<close> is \<open>x or self._x\<close>: a falsy argument (\<open>None\<close>, the
  empty string, zero, the empty dictionary) is replaced by the value the pool was
  configured with, and a truthy argument is kept. The arguments reach
  \<open>_get_connection\<close> only. A pooled connection returned without suspension (by the reuse
  branch or the multiplex branch) is an existing object whose connection is untouched,
  the store of connections being unchanged. In the create branch the arguments awaited
  are the effective ones, they are what the suspended frame keeps, and when the open
  completes the new pooled connection is handed to the caller and the connection it
  wraps was opened with exactly the effective arguments.
\<close>

theorem acquire_overrides:
  "(\<not> truthy (p_username a) \<longrightarrow> p_username (effective_params a s) = username s) \<and>
   (\<not> truthy (p_password a) \<longrightarrow> p_password (effective_params a s) = password s) \<and>
   (\<not> truthy (p_lang a) \<longrightarrow> p_lang (effective_params a s) = lang s) \<and>
   (\<not> truthy (p_traversal_source a) \<longrightarrow>
      p_traversal_source (effective_params a s) = traversal_source s) \<and>
   (\<not> truthy (p_max_inflight a) \<longrightarrow> p_max_inflight (effective_params a s) = max_inflight s) \<and>
   (\<not> truthy (p_response_timeout a) \<longrightarrow>
      p_response_timeout (effective_params a s) = response_timeout s) \<and>
   (truthy (p_username a) \<longrightarrow> p_username (effective_params a s) = p_username a) \<and>
   (truthy (p_password a) \<longrightarrow> p_password (effective_params a s) = p_password a) \<and>
   (truthy (p_lang a) \<longrightarrow> p_lang (effective_params a s) = p_lang a) \<and>
   (truthy (p_traversal_source a) \<longrightarrow>
      p_traversal_source (effective_params a s) = p_traversal_source a) \<and>
   (truthy (p_max_inflight a) \<longrightarrow> p_max_inflight (effective_params a s) = p_max_inflight a) \<and>
   (truthy (p_response_timeout a) \<longrightarrow>
      p_response_timeout (effective_params a s) = p_response_timeout a) \<and>
   (acquire a s = (Returned c, s') \<longrightarrow>
      conns s' = conns s \<and> conn (objs s' ! c) = conn (objs s ! c)) \<and>
   (acquire a s = (AwaitOpen p, s') \<longrightarrow>
      p = effective_params a s \<and> open_frame s' = Some (effective_params a s) \<and>
      conns s' = conns s) \<and>
   (acquire_opened net_ok p s = (Returned c, s') \<longrightarrow>
      conn (objs s' ! c) = Some (length (conns s)) \<and>
      opened_with (conns s' ! length (conns s)) = p) \<and>
   (acquire a s = (AwaitOpen p, s1) \<and> step (Opened True) (s1, h) = (s2, h2) \<longrightarrow>
      h2 = h @ [length (objs s1)] \<and>
      conn (objs s2 ! length (objs s1)) = Some (length (conns s)) \<and>
      opened_with (conns s2 ! length (conns s)) = effective_params a s)"
proof -
  have ret: "acquire a s = (Returned c, s') \<longrightarrow>
      conns s' = conns s \<and> conn (objs s' ! c) = conn (objs s ! c)"
    using acquire_iter_returned [of "effective_params a s" "s\<lparr>locked := True\<rparr>" c s']
    by (simp add: acquire_def)
  have aw: "p = effective_params a s \<and> open_frame s' = Some (effective_params a s) \<and>
      conns s' = conns s" if "acquire a s = (AwaitOpen p, s')" for p s'
    using acquire_iter_await [of "effective_params a s" "s\<lparr>locked := True\<rparr>" p s']
      acquire_iter_await_frame [of "effective_params a s" "s\<lparr>locked := True\<rparr>" p s'] that
    by (simp add: acquire_def)
  have op: "conn (objs s' ! c) = Some (length (conns s)) \<and>
      opened_with (conns s' ! length (conns s)) = p \<and> c = length (objs s)"
    if "acquire_opened net_ok p s = (Returned c, s')" for net_ok p s c s'
    using acquire_opened_returned [OF that] .
  have ch: "h2 = h @ [length (objs s1)] \<and>
      conn (objs s2 ! length (objs s1)) = Some (length (conns s)) \<and>
      opened_with (conns s2 ! length (conns s)) = effective_params a s"
    if a: "acquire a s = (AwaitOpen p, s1)" and b: "step (Opened True) (s1, h) = (s2, h2)"
  proof -
    let ?e = "effective_params a s"
    from aw [OF a] have f: "open_frame s1 = Some ?e" "conns s1 = conns s" by simp_all
    have r: "fst (acquire_opened True ?e s1) = Returned (length (objs s1))"
      by (simp add: acquire_opened_def get_connection_def Connection_open_def)
    then have r': "acquire_opened True ?e s1 =
        (Returned (length (objs s1)), snd (acquire_opened True ?e s1))"
      by (metis prod.collapse)
    from b f(1) r' have s2: "s2 = snd (acquire_opened True ?e s1)" "h2 = h @ [length (objs s1)]"
      by (auto split: prod.splits acquire_result.splits)
    from op [OF r'] s2 f(2) show ?thesis by simp
  qed
  show ?thesis
    using ret aw [of p s'] op [of net_ok p s c s'] ch
    by (simp add: effective_params_def py_or_falsy py_or_truthy)
qed

theorem acquire_overrides_witness:
  "truthy (p_username some_overrides) \<and> truthy (p_password some_overrides) \<and>
   \<not> truthy (p_lang some_overrides) \<and> \<not> truthy (p_traversal_source some_overrides) \<and>
   \<not> truthy (p_max_inflight some_overrides) \<and> truthy (p_response_timeout some_overrides) \<and>
   p_username (effective_params some_overrides (default_pool 4 0 16)) = PStr ''alice'' \<and>
   p_password (effective_params some_overrides (default_pool 4 0 16)) = PStr ''secret'' \<and>
   p_lang (effective_params some_overrides (default_pool 4 0 16)) = PStr ''gremlin-groovy'' \<and>
   p_traversal_source (effective_params some_overrides (default_pool 4 0 16)) = PNone \<and>
   p_max_inflight (effective_params some_overrides (default_pool 4 0 16)) = PInt 64 \<and>
   p_response_timeout (effective_params some_overrides (default_pool 4 0 16)) = PInt 5 \<and>
   fst (acquire some_overrides (default_pool 4 0 16)) =
     AwaitOpen (effective_params some_overrides (default_pool 4 0 16)) \<and>
   snd (step (Opened True) (snd (acquire some_overrides (default_pool 4 0 16)), [])) = [0] \<and>
   opened_with
     (conns (fst (step (Opened True) (snd (acquire some_overrides (default_pool 4 0 16)), [])))
        ! 0) = effective_params some_overrides (default_pool 4 0 16) \<and>
   fst (acquire some_overrides pool_idle) = Returned 0 \<and>
   opened_with (conns (snd (acquire some_overrides pool_idle)) ! 0) = default_params pool_idle \<and>
   p_username (default_params pool_idle) = PStr '''' \<and>
   fst (acquire some_overrides pool_busy) = Returned 0 \<and>
   conns (snd (acquire some_overrides pool_busy)) = conns pool_busy"
proof -
  let ?P = "default_pool 4 0 16"
  let ?e = "effective_params some_overrides ?P"
  let ?s1 = "snd (acquire some_overrides ?P)"
  let ?w2 = "step (Opened True) (?s1, [])"
  have t: "truthy (p_username some_overrides)" "truthy (p_password some_overrides)"
    "\<not> truthy (p_lang some_overrides)" "\<not> truthy (p_traversal_source some_overrides)"
    "\<not> truthy (p_max_inflight some_overrides)" "truthy (p_response_timeout some_overrides)"
    by (simp_all add: some_overrides_def)
  have cfg: "lang ?P = PStr ''gremlin-groovy''" "traversal_source ?P = PNone"
    "max_inflight ?P = PInt 64" "length (conns ?P) = 0" "length (objs ?s1) = 0"
    by code_simp+
  have ov: "p_username some_overrides = PStr ''alice''" "p_password some_overrides = PStr ''secret''"
    "p_response_timeout some_overrides = PInt 5"
    by (simp_all add: some_overrides_def)
  have wf: "fst (acquire some_overrides ?P) = AwaitOpen ?e" by code_simp
  then have w: "acquire some_overrides ?P = (AwaitOpen ?e, ?s1)" by (metis prod.collapse)
  have st: "?w2 = (fst ?w2, snd ?w2)" by simp
  note T = acquire_overrides [where a = some_overrides and s = ?P and p = ?e and ?s1.0 = ?s1
      and h = "[]" and ?s2.0 = "fst ?w2" and ?h2.0 = "snd ?w2" and c = 0 and s' = ?s1
      and net_ok = True]
  from T t have e0: "p_username ?e = p_username some_overrides"
    "p_password ?e = p_password some_overrides" "p_lang ?e = lang ?P"
    "p_traversal_source ?e = traversal_source ?P" "p_max_inflight ?e = max_inflight ?P"
    "p_response_timeout ?e = p_response_timeout some_overrides"
    by blast+
  have e: "p_username ?e = PStr ''alice''" "p_password ?e = PStr ''secret''"
    "p_lang ?e = PStr ''gremlin-groovy''" "p_traversal_source ?e = PNone"
    "p_max_inflight ?e = PInt 64" "p_response_timeout ?e = PInt 5"
    unfolding e0 using cfg ov by simp_all
  from T w st have ch0: "snd ?w2 = [] @ [length (objs ?s1)] \<and>
      conn (objs (fst ?w2) ! length (objs ?s1)) = Some (length (conns ?P)) \<and>
      opened_with (conns (fst ?w2) ! length (conns ?P)) = ?e"
    by blast
  have ch: "snd ?w2 = [0]" "opened_with (conns (fst ?w2) ! 0) = ?e"
    using ch0 cfg by simp_all
  have rf: "fst (acquire some_overrides pool_idle) = Returned 0" by code_simp
  then have r: "acquire some_overrides pool_idle =
      (Returned 0, snd (acquire some_overrides pool_idle))"
    by (metis prod.collapse)
  have i0: "opened_with (conns pool_idle ! 0) = default_params pool_idle"
    "p_username (default_params pool_idle) = PStr ''''"
    by code_simp+
  have c1: "opened_with (conns (snd (acquire some_overrides pool_idle)) ! 0)
      = default_params pool_idle"
    using acquire_overrides [where a = some_overrides and s = pool_idle and c = 0
        and s' = "snd (acquire some_overrides pool_idle)"] r i0
    by simp
  have bf: "fst (acquire some_overrides pool_busy) = Returned 0" by code_simp
  then have b: "acquire some_overrides pool_busy =
      (Returned 0, snd (acquire some_overrides pool_busy))"
    by (metis prod.collapse)
  have c2: "conns (snd (acquire some_overrides pool_busy)) = conns pool_busy"
    using acquire_overrides [where a = some_overrides and s = pool_busy and c = 0
        and s' = "snd (acquire some_overrides pool_busy)"] b
    by simp
  show ?thesis using t e wf ch rf c1 i0(2) bf c2 by simp
qed

lemma rotate_scan_append:
  "rotate_scan (length xs) s (xs @ ys) =
     (case dropWhile (\<lambda>c. \<not> times s c < max_times_acquired s) xs of
        [] \<Rightarrow> (Inr None, ys @ xs)
      | c # post \<Rightarrow>
          (Inr (Some c),
           post @ ys @ takeWhile (\<lambda>c. \<not> times s c < max_times_acquired s) xs @ [c]))"
proof (induction xs arbitrary: ys)
  case Nil
  then show ?case by simp
next
  case (Cons x xs)
  show ?case
  proof (cases "times s x < max_times_acquired s")
    case True
    then show ?thesis by simp
  next
    case False
    with Cons.IH [of "ys @ [x]"] show ?thesis
      by (cases "dropWhile (\<lambda>c. \<not> times s c < max_times_acquired s) xs")
         (simp_all del: dropWhile_eq_Nil_conv)
  qed
qed

lemma acquire_iter_multiplex:
  assumes "available s = []" and "\<not> int (length (acquired s)) < max_conns s"
  shows "acquire_iter p s =
     (case dropWhile (\<lambda>c. \<not> times s c < max_times_acquired s) (acquired s) of
        [] \<Rightarrow> (AwaitCondition, s\<lparr>locked := False\<rparr>)
      | c # post \<Rightarrow>
          (Returned c,
           (increment_acquired c s)
             \<lparr>acquired :=
                post @ takeWhile (\<lambda>c. \<not> times s c < max_times_acquired s) (acquired s) @ [c],
              locked := False\<rparr>))"
proof -
  let ?s1 = "s\<lparr>available := []\<rparr>"
  have s1: "?s1 = s" using assms(1) by simp
  have rs: "rotate_scan (length (acquired s)) s (acquired s) =
     (case dropWhile (\<lambda>c. \<not> times s c < max_times_acquired s) (acquired s) of
        [] \<Rightarrow> (Inr None, acquired s)
      | c # post \<Rightarrow>
          (Inr (Some c),
           post @ takeWhile (\<lambda>c. \<not> times s c < max_times_acquired s) (acquired s) @ [c]))"
    using rotate_scan_append [of "acquired s" s "[]"]
    by (cases "dropWhile (\<lambda>c. \<not> times s c < max_times_acquired s) (acquired s)")
       (simp_all del: dropWhile_eq_Nil_conv)
  show ?thesis
    unfolding acquire_iter_def using assms
    by (cases "dropWhile (\<lambda>c. \<not> times s c < max_times_acquired s) (acquired s)")
       (simp_all add: Let_def s1 rs del: dropWhile_eq_Nil_conv)
qed

text \<open>
  C7. With \<open>available\<close> empty and the pool at capacity, one pass of \<open>acquire\<close> examines the
  entries of \<open>acquired\<close> from the left, each at most once. If \<open>pre\<close> are the leading
  entries whose counter has reached the limit and \<open>c\<close> is the first entry below it,
  followed by \<open>post\<close>, then \<open>c\<close> is returned with its counter incremented and the deque
  is \<open>post @ pre @ [c]\<close>: every examined entry went to the back. If no entry is below
  the limit, the deque is as before (a full rotation), the lock is given up and the
  caller waits on the condition: the loop has not returned. Once woken, the caller
  takes the lock again and runs the whole loop body (\<open>acquire_iter\<close>: reuse, create,
  multiplex) from the top, on the pool as the other tasks have left it.
\<close>

theorem multiplex_rotation:
  assumes "available s = []" and "\<not> int (length (acquired s)) < max_conns s"
  shows "acquire_iter p s =
     (case dropWhile (\<lambda>c. \<not> times s c < max_times_acquired s) (acquired s) of
        [] \<Rightarrow> (AwaitCondition, s\<lparr>locked := False\<rparr>)
      | c # post \<Rightarrow>
          (Returned c,
           (increment_acquired c s)
             \<lparr>acquired :=
                post @ takeWhile (\<lambda>c. \<not> times s c < max_times_acquired s) (acquired s) @ [c],
              locked := False\<rparr>)) \<and>
    (dropWhile (\<lambda>c. \<not> times s c < max_times_acquired s) (acquired s) = [] \<longrightarrow>
       acquire_loop [] p s = (AwaitCondition, s\<lparr>locked := False\<rparr>) \<and>
       acquire_loop [others] p s =
         acquire_iter p ((others (s\<lparr>locked := False\<rparr>))\<lparr>locked := True\<rparr>) \<and>
       acquire_loop (others # env) p s = acquire_loop env p (others (s\<lparr>locked := False\<rparr>)))"
proof -
  have b: "acquire_iter p (s\<lparr>locked := True\<rparr>) = (AwaitCondition, s\<lparr>locked := False\<rparr>)"
    if "dropWhile (\<lambda>c. \<not> times s c < max_times_acquired s) (acquired s) = []"
    using acquire_iter_multiplex [of "s\<lparr>locked := True\<rparr>" p] assms that
    by (simp del: dropWhile_eq_Nil_conv)
  show ?thesis
    using acquire_iter_multiplex [OF assms, of p] b by (simp del: dropWhile_eq_Nil_conv)
qed

theorem multiplex_rotation_witness:
  "available pool_rotating = [] \<and>
   \<not> int (length (acquired pool_rotating)) < max_conns pool_rotating \<and>
   acquired pool_rotating = [0, 1, 2] \<and>
   fst (acquire_iter no_overrides pool_rotating) = Returned 1 \<and>
   acquired (snd (acquire_iter no_overrides pool_rotating)) = [2, 0, 1] \<and>
   times (snd (acquire_iter no_overrides pool_rotating)) 1 = 2 \<and>
   available pool_full = [] \<and> \<not> int (length (acquired pool_full)) < max_conns pool_full \<and>
   dropWhile (\<lambda>c. \<not> times pool_full c < max_times_acquired pool_full) (acquired pool_full)
     = [] \<and>
   acquire_iter no_overrides pool_full = (AwaitCondition, pool_full\<lparr>locked := False\<rparr>) \<and>
   fst (acquire_loop [snd \<circ> release 1] no_overrides pool_full) = Returned 1 \<and>
   acquired (snd (acquire_loop [snd \<circ> release 1] no_overrides pool_full)) = [2, 0, 1]"
proof -
  have h1: "available pool_rotating = []" by code_simp
  have h2: "\<not> int (length (acquired pool_rotating)) < max_conns pool_rotating" by code_simp
  have q: "acquired pool_rotating = [0, 1, 2]" by code_simp
  have d: "dropWhile (\<lambda>c. \<not> times pool_rotating c < max_times_acquired pool_rotating)
      (acquired pool_rotating) = [1, 2]"
    by code_simp
  have t: "takeWhile (\<lambda>c. \<not> times pool_rotating c < max_times_acquired pool_rotating)
      (acquired pool_rotating) = [0]"
    by code_simp
  from multiplex_rotation [OF h1 h2, of no_overrides]
  have r1: "acquire_iter no_overrides pool_rotating =
      (Returned 1, (increment_acquired 1 pool_rotating)\<lparr>acquired := [2, 0, 1], locked := False\<rparr>)"
    unfolding d t by simp
  have tm: "times (increment_acquired 1 pool_rotating) 1 = 2" by code_simp
  have r1t: "times (snd (acquire_iter no_overrides pool_rotating)) 1 = 2"
    unfolding r1 using tm by (simp add: times_def)
  have g1: "available pool_full = []" by code_simp
  have g2: "\<not> int (length (acquired pool_full)) < max_conns pool_full" by code_simp
  have e: "dropWhile (\<lambda>c. \<not> times pool_full c < max_times_acquired pool_full)
      (acquired pool_full) = []"
    by code_simp
  from multiplex_rotation [OF g1 g2, of no_overrides "snd \<circ> release 1" "[]"]
  have r2: "acquire_iter no_overrides pool_full = (AwaitCondition, pool_full\<lparr>locked := False\<rparr>)"
    and r3: "acquire_loop [snd \<circ> release 1] no_overrides pool_full =
        acquire_iter no_overrides
          (((snd \<circ> release 1) (pool_full\<lparr>locked := False\<rparr>))\<lparr>locked := True\<rparr>)"
    unfolding e by simp_all
  have v: "fst (acquire_iter no_overrides
          (((snd \<circ> release 1) (pool_full\<lparr>locked := False\<rparr>))\<lparr>locked := True\<rparr>)) = Returned 1"
    "acquired (snd (acquire_iter no_overrides
          (((snd \<circ> release 1) (pool_full\<lparr>locked := False\<rparr>))\<lparr>locked := True\<rparr>))) = [2, 0, 1]"
    by code_simp+
  have r4: "fst (acquire_loop [snd \<circ> release 1] no_overrides pool_full) = Returned 1"
    "acquired (snd (acquire_loop [snd \<circ> release 1] no_overrides pool_full)) = [2, 0, 1]"
    unfolding r3 using v by simp_all
  show ?thesis
    using h1 h2 q r1 r1t g1 g2 e r2 r4
    by (simp del: dropWhile_eq_Nil_conv acquire_loop.simps)
qed

section \<open>Properties of init_pool\<close>

lemma init_pool_loop_ok:
  "init_pool_loop n oks s = (Inr (), s') \<Longrightarrow>
     available s' = available s @ [length (objs s) ..< length (objs s) + n] \<and>
     acquired s' = acquired s \<and>
     objs s' = objs s @ map (\<lambda>i. \<lparr>conn = Some (length (conns s) + i), pool_ref = True,
                                  times_acquired = 0\<rparr>) [0 ..< n]"
proof (induction n arbitrary: oks s)
  case 0
  then show ?case by simp
next
  case (Suc n)
  let ?b = "case oks of [] \<Rightarrow> True | b # _ \<Rightarrow> b"
  from Suc.prems obtain c s1 where g: "get_connection ?b (default_params s) s = (Inr c, s1)"
    and rest: "init_pool_loop n (tl oks) (s1\<lparr>available := available s1 @ [c]\<rparr>) = (Inr (), s')"
    by (auto split: prod.splits sum.splits)
  from g have c: "c = length (objs s)"
    and s1: "objs s1 = objs s @ [\<lparr>conn = Some (length (conns s)), pool_ref = True,
                                   times_acquired = 0\<rparr>]"
       "length (conns s1) = Suc (length (conns s))"
       "available s1 = available s" "acquired s1 = acquired s"
    by (auto simp: get_connection_def Connection_open_def split: if_splits)
  have m: "map (\<lambda>i. \<lparr>conn = Some (length (conns s) + i), pool_ref = True,
                      times_acquired = 0\<rparr>) [0 ..< Suc n] =
      \<lparr>conn = Some (length (conns s)), pool_ref = True, times_acquired = 0\<rparr> #
      map (\<lambda>i. \<lparr>conn = Some (Suc (length (conns s)) + i), pool_ref = True,
                 times_acquired = 0\<rparr>) [0 ..< n]"
    by (simp add: map_upt_Suc del: upt_Suc)
  have u: "[length (objs s) ..< length (objs s) + Suc n] =
      length (objs s) # [Suc (length (objs s)) ..< Suc (length (objs s)) + n]"
    by (simp add: upt_conv_Cons del: upt_Suc)
  from Suc.IH [OF rest] show ?case
    unfolding m u by (simp add: s1 c)
qed

text \<open>
  C8. On a freshly constructed pool with \<open>min_conns = N\<close> (a count, so \<open>0 \<le> N\<close>), an
  \<open>init_pool\<close> that completes without raising leaves exactly \<open>N\<close> pooled connections in
  \<open>available\<close>, in the order in which they were opened one after the other, each with
  counter 0 and wrapping the connection opened for it, and leaves \<open>acquired\<close> empty.
\<close>

theorem init_pool_fills_available:
  assumes "s0 = ConnectionPool u ssl usr pw lg ts rt maxc N mta mi"
    and "0 \<le> N"
    and "init_pool oks s0 = (Inr (), s)"
  shows "int (length (available s)) = N \<and> available s = [0 ..< nat N] \<and> acquired s = [] \<and>
    (\<forall>c \<in> set (available s). times s c = 0 \<and> conn (objs s ! c) = Some c)"
proof -
  from assms(3) have l: "init_pool_loop (nat N) oks s0 = (Inr (), s)"
    by (simp add: init_pool_def assms(1) ConnectionPool_def)
  have e: "available s0 = []" "acquired s0 = []" "objs s0 = []" "conns s0 = []"
    by (simp_all add: assms(1) ConnectionPool_def)
  from init_pool_loop_ok [OF l] have r: "available s = [0 ..< nat N]" "acquired s = []"
    "objs s = map (\<lambda>i. \<lparr>conn = Some i, pool_ref = True, times_acquired = 0\<rparr>) [0 ..< nat N]"
    by (simp_all add: e)
  show ?thesis using assms(2) by (simp add: r times_def)
qed

theorem init_pool_fills_available_witness:
  "(0::int) \<le> 3 \<and> fst (init_pool [] (default_pool 4 3 16)) = Inr () \<and>
   available (snd (init_pool [] (default_pool 4 3 16))) = [0, 1, 2] \<and>
   acquired (snd (init_pool [] (default_pool 4 3 16))) = []"
proof -
  have h: "(0::int) \<le> 3" by simp
  have f: "fst (init_pool [] (default_pool 4 3 16)) = Inr ()" by code_simp
  then have i: "init_pool [] (default_pool 4 3 16) = (Inr (), snd (init_pool [] (default_pool 4 3 16)))"
    by (metis prod.collapse)
  from init_pool_fills_available [OF default_pool_def [of 4 3 16] h i]
  have "available (snd (init_pool [] (default_pool 4 3 16))) = [0 ..< nat 3]"
    "acquired (snd (init_pool [] (default_pool 4 3 16))) = []" by simp_all
  moreover have "[0 ..< nat 3] = [0, 1, 2]" by code_simp
  ultimately show ?thesis using h f by simp
qed

section \<open>Properties of release\<close>

lemma count_list_0: "x \<notin> set xs \<Longrightarrow> count_list xs x = 0"
  by (induction xs) auto

text \<open>
  C6 as stated fails: \<open>close\<close> pops both deques before the connection closes have
  finished. A caller that then releases the connection it holds, not closed yet,
  decrements the counter to zero, and \<open>self._acquired.remove(conn)\<close> raises \<open>ValueError\<close>:
  nothing is appended to \<open>available\<close> and no notification task is scheduled.
\<close>

theorem release_after_close_counterexample:
  "legal [InitPool [], Acquire no_overrides, Acquire no_overrides,
          Close first_fails in_order 0] (default_pool 2 2 16, []) \<and>
   1 \<in> set (snd pool_closing) \<and>
   pc_closed (fst pool_closing) 1 = Inr False \<and>
   times (fst pool_closing) 1 = 1 \<and>
   fst (release 1 (fst pool_closing)) = Inl ValueError \<and>
   available (snd (release 1 (fst pool_closing))) = [] \<and>
   notify_tasks (snd (release 1 (fst pool_closing))) = notify_tasks (fst pool_closing)"
  by code_simp

text \<open>
  C6, amended. Releasing a pooled connection that is lent out (it is in \<open>acquired\<close>, and
  no entry is tracked twice) and whose connection is not closed decrements its counter
  and schedules exactly one notification task, whether or not an entry moves. The
  entry moves exactly when the counter reaches zero: it leaves \<open>acquired\<close> and becomes
  the last entry of \<open>available\<close>, where it occurs once; otherwise both deques are
  unchanged.
\<close>

theorem release_open_connection:
  assumes "pc_closed s c = Inr False" and "c \<in> set (acquired s)"
    and "distinct (available s @ acquired s)" and "c < length (objs s)"
  shows "fst (release c s) = Inr () \<and>
    times (snd (release c s)) c = times s c - 1 \<and>
    notify_tasks (snd (release c s)) = notify_tasks s + 1 \<and>
    (if times s c - 1 = 0
     then available (snd (release c s)) = available s @ [c] \<and>
          acquired (snd (release c s)) = remove1 c (acquired s) \<and>
          c \<notin> set (acquired (snd (release c s))) \<and>
          count_list (available (snd (release c s))) c = 1
     else available (snd (release c s)) = available s \<and>
          acquired (snd (release c s)) = acquired s)"
proof -
  let ?s1 = "decrement_acquired c s"
  have t: "times ?s1 c = times s c - 1"
    using assms(4) by (simp add: times_def decrement_acquired_def)
  have q: "acquired ?s1 = acquired s" "available ?s1 = available s"
    "notify_tasks ?s1 = notify_tasks s"
    by (simp_all add: decrement_acquired_def)
  have na: "c \<notin> set (available s)" using assms(2,3) by auto
  have d: "distinct (acquired s)" using assms(3) by simp
  show ?thesis
  proof (cases "times s c - 1 = 0")
    case True
    then have "release c s =
        (Inr (), create_notify_task (?s1\<lparr>acquired := remove1 c (acquired s),
                                         available := available s @ [c]\<rparr>))"
      using assms(1,2) t by (simp add: release_def Let_def deque_remove_def q)
    then show ?thesis using True na d t
      by (simp add: create_notify_task_def q times_def count_list_0)
  next
    case False
    then have "release c s = (Inr (), create_notify_task ?s1)"
      using assms(1) t by (simp add: release_def Let_def)
    then show ?thesis using False t
      by (simp add: create_notify_task_def q times_def)
  qed
qed

theorem release_open_connection_witness:
  "pc_closed pool_busy 0 = Inr False \<and> 0 \<in> set (acquired pool_busy) \<and>
   distinct (available pool_busy @ acquired pool_busy) \<and> 0 < length (objs pool_busy) \<and>
   times pool_busy 0 - 1 = 0 \<and>
   available (snd (release 0 pool_busy)) = [0] \<and>
   acquired (snd (release 0 pool_busy)) = [] \<and>
   notify_tasks (snd (release 0 pool_busy)) = 1 \<and>
   pc_closed pool_shared 0 = Inr False \<and> 0 \<in> set (acquired pool_shared) \<and>
   distinct (available pool_shared @ acquired pool_shared) \<and> 0 < length (objs pool_shared) \<and>
   times pool_shared 0 - 1 \<noteq> 0 \<and>
   available (snd (release 0 pool_shared)) = [] \<and>
   acquired (snd (release 0 pool_shared)) = [0] \<and>
   notify_tasks (snd (release 0 pool_shared)) = 1"
proof -
  have b: "pc_closed pool_busy 0 = Inr False" "0 \<in> set (acquired pool_busy)"
    "distinct (available pool_busy @ acquired pool_busy)" "0 < length (objs pool_busy)"
    by code_simp+
  have bv: "times pool_busy 0 - 1 = 0" "available pool_busy = []" "acquired pool_busy = [0]"
    "notify_tasks pool_busy = 0"
    by code_simp+
  have h: "pc_closed pool_shared 0 = Inr False" "0 \<in> set (acquired pool_shared)"
    "distinct (available pool_shared @ acquired pool_shared)" "0 < length (objs pool_shared)"
    by code_simp+
  have hv: "times pool_shared 0 - 1 \<noteq> 0" "available pool_shared = []"
    "acquired pool_shared = [0]" "notify_tasks pool_shared = 0"
    by code_simp+
  from release_open_connection [OF b] bv
  have r1: "available (snd (release 0 pool_busy)) = [0]"
    "acquired (snd (release 0 pool_busy)) = []"
    "notify_tasks (snd (release 0 pool_busy)) = 1" by simp_all
  from release_open_connection [OF h] hv
  have r2: "available (snd (release 0 pool_shared)) = []"
    "acquired (snd (release 0 pool_shared)) = [0]"
    "notify_tasks (snd (release 0 pool_shared)) = 1" by simp_all
  show ?thesis using b bv(1) h hv(1) r1 r2 by simp
qed
text \<open>
  C5. A connection lent to two callers is closed by the server. The first \<open>release\<close>
  removes it from \<open>acquired\<close>. The second caller still holds it; its \<open>release\<close> finds the
  connection closed, calls \<open>self._acquired.remove(conn)\<close> on a deque that no longer
  has it, and raises \<open>ValueError\<close> before any notification task is scheduled.
\<close>

theorem release_shared_closed_raises:
  "legal [Acquire no_overrides, Opened True, Acquire no_overrides, ConnLost 0, Release 0]
     (default_pool 1 0 16, []) \<and>
   snd pool_shared_lost = [0] \<and>
   pc_closed (fst pool_shared_lost) 0 = Inr True \<and>
   fst (release 0 (fst pool_shared_lost)) = Inl ValueError \<and>
   notify_tasks (snd (release 0 (fst pool_shared_lost))) = notify_tasks (fst pool_shared_lost)"
  by code_simp
section \<open>Closed connections and the lock\<close>

text \<open>
  C1. The only connection of a pool of capacity one is lent out and then closed by the
  server. The next \<open>acquire\<close> finds \<open>available\<close> empty and the pool at capacity, and the
  multiplex branch, which tests the counter only, returns that connection although it
  reports closed.
\<close>

theorem multiplex_returns_closed:
  "legal [Acquire no_overrides, Opened True, ConnLost 0] (default_pool 1 0 16, []) \<and>
   \<not> locked (fst pool_lost) \<and>
   fst (acquire no_overrides (fst pool_lost)) = Returned 0 \<and>
   pc_closed (snd (acquire no_overrides (fst pool_lost))) 0 = Inr True"
  by code_simp

lemma pc_close_locked: "locked (snd (pc_close b c s)) = locked s"
  by (simp add: pc_close_def Connection_close_def split: option.splits)

lemma finish_closes_locked: "locked (finish_closes ok cs s) = locked s"
  by (induction cs arbitrary: s) (simp_all add: pc_close_locked)

lemma gather_locked: "locked (snd (gather ok late cs s)) = locked s"
proof (induction cs arbitrary: s)
  case Nil
  then show ?case by simp
next
  case (Cons c cs)
  show ?case
  proof (cases "pc_close (ok c) c s")
    case (Pair r s1)
    with pc_close_locked [of "ok c" c s] have "locked s1 = locked s" by simp
    with Pair Cons.IH [of s1] show ?thesis by (cases r) (simp_all add: finish_closes_locked)
  qed
qed

lemma acquire_iter_locked:
  "locked s \<Longrightarrow> locked (snd (acquire_iter p s)) = is_await_open (fst (acquire_iter p s))"
  unfolding acquire_iter_def
  by (simp add: Let_def increment_acquired_def split: prod.splits sum.splits option.splits)

text \<open>
  C9 as stated fails: on a pool with room for a new connection, \<open>acquire\<close> suspends in
  the create branch, awaiting the open, with the lock held.
\<close>

theorem lock_released_counterexample:
  "fst (acquire no_overrides (default_pool 4 1 16)) =
     AwaitOpen (effective_params no_overrides (default_pool 4 1 16)) \<and>
   locked (snd (acquire no_overrides (default_pool 4 1 16)))"
  by code_simp

text \<open>
  C9, amended. From taking the lock to its return, its exception or its wait on the
  condition, \<open>acquire\<close> holds the lock; in particular the lock is held exactly when
  \<open>acquire\<close> is suspended on the open of the create branch, and it is released when the
  create branch finishes. \<open>close\<close> never takes the lock: it leaves it as it finds it.
\<close>

theorem lock_held_while_opening:
  "locked (snd (acquire a s)) = is_await_open (fst (acquire a s)) \<and>
   \<not> locked (snd (acquire_opened net_ok p s)) \<and>
   locked (snd (close ok finish late s)) = locked s"
proof -
  have a: "locked (snd (acquire a s)) = is_await_open (fst (acquire a s))"
    unfolding acquire_def by (rule acquire_iter_locked) simp
  have b: "\<not> locked (snd (acquire_opened net_ok p s))"
    by (simp add: acquire_opened_def get_connection_def Connection_open_def
        increment_acquired_def)
  have c: "locked (snd (close ok finish late s)) = locked s"
    by (simp add: close_def Let_def gather_locked)
  show ?thesis using a b c by simp
qed

section \<open>The capacity bound\<close>

lemma reuse_scan_length: "length (snd (reuse_scan s q)) \<le> length q"
  by (induction q) (auto split: sum.splits bool.splits)

lemma reuse_scan_found_length:
  "reuse_scan s q = (Inr (Some c), q') \<Longrightarrow> length q' < length q"
  using reuse_scan_length [of s]
  by (induction q) (auto split: sum.splits bool.splits simp: less_Suc_eq_le)

lemma rotate_scan_length: "length (snd (rotate_scan n s q)) \<le> length q"
  by (induction n s q rule: rotate_scan.induct) auto

lemma acquire_iter_cap:
  assumes "cap_inv s" "open_frame s = None" "locked s"
  shows "cap_inv (snd (acquire_iter p s))"
proof (cases "reuse_scan s (available s)")
  case (Pair r q)
  have lq: "length q \<le> length (available s)" using reuse_scan_length [of s "available s"] Pair by simp
  show ?thesis
  proof (cases r)
    case (Inl e)
    with Pair lq assms show ?thesis by (simp add: acquire_iter_def cap_inv_def tracked_def)
  next
    case (Inr f)
    show ?thesis
    proof (cases f)
      case (Some c)
      with Inr Pair have "length q < length (available s)"
        using reuse_scan_found_length by blast
      with Some Inr Pair assms show ?thesis
        by (simp add: acquire_iter_def cap_inv_def tracked_def increment_acquired_def)
    next
      case None
      with Inr Pair have q: "q = []" using reuse_scan_none by blast
      let ?s1 = "s\<lparr>available := []\<rparr>"
      show ?thesis
      proof (cases "int (length (acquired s)) < max_conns s")
        case True
        with None Inr Pair q assms show ?thesis
          by (simp add: acquire_iter_def cap_inv_def tracked_def Let_def)
      next
        case False
        obtain r' q' where rs: "rotate_scan (length (acquired s)) ?s1 (acquired s) = (r', q')"
          by (cases "rotate_scan (length (acquired s)) ?s1 (acquired s)")
        have "length q' \<le> length (acquired s)"
          using rotate_scan_length [of "length (acquired s)" ?s1 "acquired s"] rs by simp
        with False None Inr Pair q assms rs show ?thesis
          by (cases r'; cases "projr r'")
             (simp_all add: acquire_iter_def cap_inv_def tracked_def Let_def increment_acquired_def)
      qed
    qed
  qed
qed


lemma acquire_cap: "cap_inv s \<Longrightarrow> \<not> locked s \<Longrightarrow> cap_inv (snd (acquire a s))"
  unfolding acquire_def
  by (rule acquire_iter_cap) (auto simp: cap_inv_def tracked_def)

lemma acquire_opened_cap:
  "cap_inv s \<Longrightarrow> open_frame s = Some p \<Longrightarrow> cap_inv (snd (acquire_opened net_ok q s))"
  by (simp add: acquire_opened_def get_connection_def Connection_open_def cap_inv_def
      tracked_def increment_acquired_def)

lemma length_remove1_mem: "x \<in> set xs \<Longrightarrow> Suc (length (remove1 x xs)) = length xs"
  by (induction xs) auto

lemma release_tracked:
  "tracked (snd (release c s)) \<le> tracked s \<and> open_frame (snd (release c s)) = open_frame s \<and>
   locked (snd (release c s)) = locked s \<and> max_conns (snd (release c s)) = max_conns s"
  using length_remove1_mem [of c "acquired s"]
  by (auto simp: release_def Let_def deque_remove_def create_notify_task_def tracked_def
      decrement_acquired_def split: sum.splits bool.splits)

lemma release_cap: "cap_inv s \<Longrightarrow> cap_inv (snd (release c s))"
  using release_tracked [of c s] by (simp add: cap_inv_def)

lemma pc_close_frame:
  "available (snd (pc_close b c s)) = available s \<and> acquired (snd (pc_close b c s)) = acquired s \<and>
   open_frame (snd (pc_close b c s)) = open_frame s \<and> locked (snd (pc_close b c s)) = locked s \<and>
   max_conns (snd (pc_close b c s)) = max_conns s \<and> waiters (snd (pc_close b c s)) = waiters s"
  by (simp add: pc_close_def Connection_close_def split: option.splits)

lemma finish_closes_frame:
  "available (finish_closes ok cs s) = available s \<and> acquired (finish_closes ok cs s) = acquired s \<and>
   open_frame (finish_closes ok cs s) = open_frame s \<and> locked (finish_closes ok cs s) = locked s \<and>
   max_conns (finish_closes ok cs s) = max_conns s \<and> waiters (finish_closes ok cs s) = waiters s"
  by (induction cs arbitrary: s) (simp_all add: pc_close_frame)

lemma gather_frame:
  "available (snd (gather ok late cs s)) = available s \<and> acquired (snd (gather ok late cs s)) = acquired s \<and>
   open_frame (snd (gather ok late cs s)) = open_frame s \<and> locked (snd (gather ok late cs s)) = locked s \<and>
   max_conns (snd (gather ok late cs s)) = max_conns s \<and> waiters (snd (gather ok late cs s)) = waiters s"
proof (induction cs arbitrary: s)
  case Nil
  then show ?case by simp
next
  case (Cons c cs)
  show ?case
  proof (cases "pc_close (ok c) c s")
    case (Pair r s1)
    with pc_close_frame [of "ok c" c s] Cons.IH [of s1] finish_closes_frame [of ok "take late cs" s1]
    show ?thesis by (cases r) simp_all
  qed
qed

lemma pc_close_cap: "cap_inv s \<Longrightarrow> cap_inv (snd (pc_close b c s))"
  using pc_close_frame [of b c s] by (simp add: cap_inv_def tracked_def)

lemma close_cap: "cap_inv s \<Longrightarrow> cap_inv (snd (close ok finish late s))"
  using gather_frame [of ok late "sort_key finish (available s @ acquired s)"
      "s\<lparr>available := [], acquired := [], waiters := waiters s @ available s @ acquired s\<rparr>"]
  by (auto simp: cap_inv_def tracked_def close_def Let_def)

lemma conn_lost_cap: "cap_inv s \<Longrightarrow> cap_inv (conn_lost c s)"
  by (auto simp: cap_inv_def tracked_def conn_lost_def split: option.splits)

lemma init_pool_loop_cap:
  "tracked (snd (init_pool_loop n oks s)) \<le> tracked s + n \<and>
   open_frame (snd (init_pool_loop n oks s)) = open_frame s \<and>
   locked (snd (init_pool_loop n oks s)) = locked s \<and>
   max_conns (snd (init_pool_loop n oks s)) = max_conns s"
proof (induction n arbitrary: oks s)
  case 0
  then show ?case by simp
next
  case (Suc n)
  let ?b = "case oks of [] \<Rightarrow> True | b # _ \<Rightarrow> b"
  show ?case
  proof (cases ?b)
    case False
    then show ?thesis by (simp add: get_connection_def Connection_open_def)
  next
    case True
    then obtain c s1 where g: "get_connection ?b (default_params s) s = (Inr c, s1)"
      and f: "tracked (s1\<lparr>available := available s1 @ [c]\<rparr>) = Suc (tracked s)"
        "open_frame s1 = open_frame s" "locked s1 = locked s" "max_conns s1 = max_conns s"
      by (simp add: get_connection_def Connection_open_def tracked_def)
    have "init_pool_loop (Suc n) oks s =
        init_pool_loop n (tl oks) (s1\<lparr>available := available s1 @ [c]\<rparr>)"
      using g by simp
    with Suc.IH [of "tl oks" "s1\<lparr>available := available s1 @ [c]\<rparr>"] f show ?thesis by simp
  qed
qed

lemma step_cap:
  "cap_inv (fst w) \<Longrightarrow> enabled e w \<Longrightarrow> \<not> is_init e \<Longrightarrow> cap_inv (fst (step e w))"
proof (cases w)
  case (Pair s h)
  assume a: "cap_inv (fst w)" "enabled e w" "\<not> is_init e"
  show ?thesis
  proof (cases e)
    case (InitPool oks)
    with a show ?thesis by simp
  next
    case (Acquire p)
    with a Pair have "cap_inv (snd (acquire p s))" by (simp add: acquire_cap)
    with Acquire Pair show ?thesis
      by (cases "acquire p s"; cases "fst (acquire p s)") auto
  next
    case (Opened b)
    with a Pair obtain p where p: "open_frame s = Some p" by auto
    with a Pair have "cap_inv (snd (acquire_opened b p s))" by (simp add: acquire_opened_cap)
    with Opened Pair p show ?thesis
      by (cases "acquire_opened b p s"; cases "fst (acquire_opened b p s)") auto
  next
    case (Release c)
    with a Pair show ?thesis by (simp add: release_cap)
  next
    case (Close ok finish late)
    with a Pair show ?thesis by (simp add: close_cap)
  next
    case (CloseDone c b)
    with a Pair show ?thesis by (simp add: pc_close_cap)
  next
    case (ConnLost c)
    with a Pair show ?thesis by (simp add: conn_lost_cap)
  qed
qed

lemma run_cap:
  "cap_inv (fst w) \<Longrightarrow> legal es w \<Longrightarrow> \<forall>e \<in> set es. \<not> is_init e \<Longrightarrow> cap_inv (fst (run es w))"
proof (induction es arbitrary: w)
  case Nil
  then show ?case by simp
next
  case (Cons e es)
  from Cons.prems have "cap_inv (fst (step e w))" by (simp add: step_cap)
  with Cons.IH [of "step e w"] Cons.prems show ?case by simp
qed

lemma acquire_iter_max_conns: "max_conns (snd (acquire_iter p s)) = max_conns s"
  unfolding acquire_iter_def
  by (simp add: Let_def increment_acquired_def split: prod.splits sum.splits option.splits)

lemma acquire_opened_max_conns: "max_conns (snd (acquire_opened b p s)) = max_conns s"
  by (simp add: acquire_opened_def get_connection_def Connection_open_def increment_acquired_def)

lemma step_max_conns: "max_conns (fst (step e w)) = max_conns (fst w)"
proof (cases w)
  case (Pair s h)
  show ?thesis
  proof (cases e)
    case (InitPool oks)
    with Pair show ?thesis using init_pool_loop_cap by (simp add: init_pool_def)
  next
    case (Acquire p)
    with Pair acquire_iter_max_conns [of "effective_params p s" "s\<lparr>locked := True\<rparr>"]
    show ?thesis
      by (cases "acquire p s"; cases "fst (acquire p s)") (auto simp: acquire_def)
  next
    case (Opened b)
    show ?thesis
    proof (cases "open_frame s")
      case None
      with Opened Pair show ?thesis by simp
    next
      case (Some p)
      with Opened Pair acquire_opened_max_conns [of b p s] show ?thesis
        by (cases "acquire_opened b p s"; cases "fst (acquire_opened b p s)") auto
    qed
  next
    case (Release c)
    with Pair release_tracked [of c s] show ?thesis by simp
  next
    case (Close ok finish late)
    with Pair gather_frame [of ok late "sort_key finish (available s @ acquired s)"
      "s\<lparr>available := [], acquired := [], waiters := waiters s @ available s @ acquired s\<rparr>"]
    show ?thesis by (simp add: close_def Let_def)
  next
    case (CloseDone c b)
    with Pair pc_close_frame [of b c s] show ?thesis by simp
  next
    case (ConnLost c)
    with Pair show ?thesis by (simp add: conn_lost_def split: option.splits)
  qed
qed

lemma run_max_conns: "max_conns (fst (run es w)) = max_conns (fst w)"
  by (induction es arbitrary: w) (simp_all add: step_max_conns)

text \<open>
  C2 as stated fails: \<open>init_pool\<close> appends \<open>min_conns\<close> connections whatever the pool
  already tracks, so calling it twice on a pool with \<open>min_conns = max_conns = 1\<close>
  leaves two tracked connections.
\<close>

theorem tracked_bound_counterexample:
  "min_conns (default_pool 1 1 16) \<le> max_conns (default_pool 1 1 16) \<and>
   legal [InitPool [], InitPool []] (default_pool 1 1 16, []) \<and>
   \<not> int (tracked (fst (run [InitPool [], InitPool []] (default_pool 1 1 16, []))))
       \<le> max_conns (default_pool 1 1 16)"
  by code_simp

text \<open>
  C2, amended. Take a freshly constructed pool with \<open>min_conns \<le> max_conns\<close> and
  \<open>0 \<le> max_conns\<close>, on which \<open>init_pool\<close> is called at most once, before anything else and
  to completion, with any outcome of the opens. After any sequence of acquires (each
  entering the loop when the lock is free), completions of the awaited open, releases,
  closes and losses of connections, the number of tracked connections is at most
  \<open>max_conns\<close>: the create branch opens a connection only when \<open>available\<close> is empty and
  \<open>acquired\<close> is below \<open>max_conns\<close>, and it holds the lock until the new connection is
  appended.
\<close>

theorem tracked_bound:
  assumes "s0 = ConnectionPool u ssl usr pw lg ts rt maxc minc mta mi"
    and "minc \<le> maxc" and "0 \<le> maxc"
    and "w0 = (s0, []) \<or> w0 = step (InitPool oks) (s0, [])"
    and "legal es w0" and "\<forall>e \<in> set es. \<not> is_init e"
  shows "int (tracked (fst (run es w0))) \<le> maxc"
proof -
  have f: "tracked s0 = 0" "open_frame s0 = None" "max_conns s0 = maxc" "min_conns s0 = minc"
    by (simp_all add: assms(1) ConnectionPool_def tracked_def)
  have c0: "cap_inv s0" using assms(3) f by (simp add: cap_inv_def)
  have "tracked (snd (init_pool oks s0)) \<le> nat minc \<and>
      open_frame (snd (init_pool oks s0)) = None \<and> max_conns (snd (init_pool oks s0)) = maxc"
    using init_pool_loop_cap [of "nat minc" oks s0] f by (simp add: init_pool_def)
  then have c1: "cap_inv (snd (init_pool oks s0))"
    using assms(2,3) by (auto simp: cap_inv_def)
  have m1: "max_conns (fst w0) = maxc"
    using assms(4) f step_max_conns [of "InitPool oks" "(s0, [])"] by auto
  from assms(4) c0 c1 have "cap_inv (fst w0)" by auto
  from run_cap [OF this assms(5,6)] have "cap_inv (fst (run es w0))" .
  moreover have "max_conns (fst (run es w0)) = maxc" using m1 by (simp add: run_max_conns)
  ultimately show ?thesis by (simp add: cap_inv_def split: if_splits)
qed

theorem tracked_bound_witness:
  "(1::int) \<le> 2 \<and> (0::int) \<le> 2 \<and>
   legal [Acquire no_overrides, Acquire no_overrides, Opened True, Release 0, Acquire no_overrides]
     (step (InitPool []) (default_pool 2 1 16, [])) \<and>
   int (tracked (fst (run
     [Acquire no_overrides, Acquire no_overrides, Opened True, Release 0, Acquire no_overrides]
     (step (InitPool []) (default_pool 2 1 16, []))))) \<le> 2"
proof -
  let ?es = "[Acquire no_overrides, Acquire no_overrides, Opened True, Release 0,
              Acquire no_overrides]"
  have h1: "(1::int) \<le> 2" and h2: "(0::int) \<le> 2" by simp_all
  have h3: "step (InitPool []) (default_pool 2 1 16, []) = (default_pool 2 1 16, []) \<or>
      step (InitPool []) (default_pool 2 1 16, []) = step (InitPool []) (default_pool 2 1 16, [])"
    by simp
  have h4: "legal ?es (step (InitPool []) (default_pool 2 1 16, []))" by code_simp
  have h5: "\<forall>e \<in> set ?es. \<not> is_init e" by simp
  from tracked_bound [OF default_pool_def h1 h2 h3 h4 h5]
  have "int (tracked (fst (run ?es (step (InitPool []) (default_pool 2 1 16, []))))) \<le> 2"
    by simp
  with h1 h2 h4 show ?thesis by simp
qed

section \<open>The tracking invariant\<close>

lemma bump_simps [simp]:
  "length (bump d c ob) = length ob"
  "conn (bump d c ob ! x) = conn (ob ! x)"
  "c < length ob \<Longrightarrow> times_acquired (bump d c ob ! c) = times_acquired (ob ! c) + d"
  "x \<noteq> c \<Longrightarrow> times_acquired (bump d c ob ! x) = times_acquired (ob ! x)"
  by (simp_all add: bump_def)

lemma count_list_remove1:
  "count_list (remove1 c h) x =
     (if x = c \<and> c \<in> set h then count_list h x - 1 else count_list h x)"
  by (induction h) (auto simp: count_list_0_iff)

lemma count_pos_mem: "0 < count_list h c \<longleftrightarrow> c \<in> set h"
  using count_list_0_iff [of h c] by auto

lemma tinvI:
  assumes "distinct (A @ Q)"
    and "\<And>c. c \<in> set A \<Longrightarrow> times_acquired (ob ! c) = 0 \<and> count_list h c = 0"
    and "\<And>c. c \<in> set Q \<Longrightarrow> times_acquired (ob ! c) = int (count_list h c) \<and> 0 < count_list h c"
    and "\<And>c. c \<in> set A \<union> set Q \<Longrightarrow> c < length ob \<and> conn (ob ! c) \<noteq> None \<and> c \<notin> set W"
    and "\<And>c. c \<in> set h \<union> set W \<Longrightarrow> c < length ob"
    and "\<And>c k. c < length ob \<Longrightarrow> conn (ob ! c) = Some k \<Longrightarrow> k < length C"
    and "\<And>c. c < length ob \<Longrightarrow> c \<notin> set A \<Longrightarrow> c \<notin> set Q \<Longrightarrow> c \<notin> set W \<Longrightarrow>
           \<exists>k. conn (ob ! c) = Some k \<and> closed (C ! k)"
  shows "tinv A Q ob C W h"
  unfolding tinv_def using assms by blast

lemma tinvD:
  assumes "tinv A Q ob C W h"
  shows "distinct (A @ Q)"
    and "\<And>c. c \<in> set A \<Longrightarrow> times_acquired (ob ! c) = 0 \<and> count_list h c = 0"
    and "\<And>c. c \<in> set Q \<Longrightarrow> times_acquired (ob ! c) = int (count_list h c) \<and> 0 < count_list h c"
    and "\<And>c. c \<in> set A \<union> set Q \<Longrightarrow> c < length ob \<and> conn (ob ! c) \<noteq> None \<and> c \<notin> set W"
    and "\<And>c. c \<in> set h \<union> set W \<Longrightarrow> c < length ob"
    and "\<And>c k. c < length ob \<Longrightarrow> conn (ob ! c) = Some k \<Longrightarrow> k < length C"
    and "\<And>c. c < length ob \<Longrightarrow> c \<notin> set A \<Longrightarrow> c \<notin> set Q \<Longrightarrow> c \<notin> set W \<Longrightarrow>
           \<exists>k. conn (ob ! c) = Some k \<and> closed (C ! k)"
  using assms unfolding tinv_def by blast+

lemma tinv_drop:
  assumes "tinv (pre @ q) Q ob C W h"
    and "\<And>c. c \<in> set pre \<Longrightarrow> \<not> (\<exists>k. conn (ob ! c) = Some k \<and> \<not> closed (C ! k))"
  shows "tinv q Q ob C W h"
proof (rule tinvI)
  note D = tinvD [OF assms(1)]
  show "distinct (q @ Q)" using D(1) by auto
  show "times_acquired (ob ! c) = 0 \<and> count_list h c = 0" if "c \<in> set q" for c
    using D(2) [of c] that by simp
  show "times_acquired (ob ! c) = int (count_list h c) \<and> 0 < count_list h c"
    if "c \<in> set Q" for c
    using D(3) [OF that] .
  show "c < length ob \<and> conn (ob ! c) \<noteq> None \<and> c \<notin> set W" if "c \<in> set q \<union> set Q" for c
    using D(4) [of c] that by auto
  show "c < length ob" if "c \<in> set h \<union> set W" for c using D(5) [OF that] .
  show "k < length C" if "c < length ob" "conn (ob ! c) = Some k" for c k
    using D(6) [OF that] .
  show "\<exists>k. conn (ob ! c) = Some k \<and> closed (C ! k)"
    if "c < length ob" "c \<notin> set q" "c \<notin> set Q" "c \<notin> set W" for c
  proof (cases "c \<in> set pre")
    case True
    with D(4) [of c] have "conn (ob ! c) \<noteq> None" by simp
    with assms(2) [OF True] show ?thesis by auto
  next
    case False
    with D(7) [of c] that show ?thesis by simp
  qed
qed

lemma tinv_lend_idle:
  assumes "tinv (c # q) Q ob C W h"
  shows "tinv q (Q @ [c]) (bump 1 c ob) C W (h @ [c])"
proof (rule tinvI)
  note D = tinvD [OF assms]
  have c: "c < length ob" "c \<notin> set q" "c \<notin> set Q"
    "times_acquired (ob ! c) = 0" "count_list h c = 0"
    using D(1) D(2) [of c] D(4) [of c] by auto
  show "distinct (q @ Q @ [c])" using D(1) by auto
  show "times_acquired (bump 1 c ob ! x) = 0 \<and> count_list (h @ [c]) x = 0" if "x \<in> set q" for x
    using D(2) [of x] that c(2) by auto
  show "times_acquired (bump 1 c ob ! x) = int (count_list (h @ [c]) x) \<and>
      0 < count_list (h @ [c]) x" if "x \<in> set (Q @ [c])" for x
  proof (cases "x = c")
    case True
    then show ?thesis using c by simp
  next
    case False
    with that D(3) [of x] show ?thesis by simp
  qed
  show "x < length (bump 1 c ob) \<and> conn (bump 1 c ob ! x) \<noteq> None \<and> x \<notin> set W"
    if "x \<in> set q \<union> set (Q @ [c])" for x
    using D(4) [of x] that by auto
  show "x < length (bump 1 c ob)" if "x \<in> set (h @ [c]) \<union> set W" for x
    using D(5) [of x] that c(1) by auto
  show "k < length C" if "x < length (bump 1 c ob)" "conn (bump 1 c ob ! x) = Some k" for x k
    using D(6) [of x k] that by simp
  show "\<exists>k. conn (bump 1 c ob ! x) = Some k \<and> closed (C ! k)"
    if "x < length (bump 1 c ob)" "x \<notin> set q" "x \<notin> set (Q @ [c])" "x \<notin> set W" for x
    using D(7) [of x] that by simp
qed

lemma tinv_perm:
  assumes "tinv A Q ob C W h" and "set Q' = set Q" and "distinct Q'"
  shows "tinv A Q' ob C W h"
  using assms unfolding tinv_def by auto

lemma tinv_lend_shared:
  assumes "tinv A Q ob C W h" and "c \<in> set Q"
  shows "tinv A Q (bump 1 c ob) C W (h @ [c])"
proof (rule tinvI)
  note D = tinvD [OF assms(1)]
  have c: "c < length ob" "c \<notin> set A" using D(1) D(4) [of c] assms(2) by auto
  show "distinct (A @ Q)" by (rule D(1))
  show "times_acquired (bump 1 c ob ! x) = 0 \<and> count_list (h @ [c]) x = 0" if "x \<in> set A" for x
    using D(2) [of x] that c(2) by auto
  show "times_acquired (bump 1 c ob ! x) = int (count_list (h @ [c]) x) \<and>
      0 < count_list (h @ [c]) x" if "x \<in> set Q" for x
  proof (cases "x = c")
    case True
    then show ?thesis using c D(3) [of c] assms(2) by simp
  next
    case False
    with that D(3) [of x] show ?thesis by simp
  qed
  show "x < length (bump 1 c ob) \<and> conn (bump 1 c ob ! x) \<noteq> None \<and> x \<notin> set W"
    if "x \<in> set A \<union> set Q" for x
    using D(4) [of x] that by auto
  show "x < length (bump 1 c ob)" if "x \<in> set (h @ [c]) \<union> set W" for x
    using D(5) [of x] that c(1) by auto
  show "k < length C" if "x < length (bump 1 c ob)" "conn (bump 1 c ob ! x) = Some k" for x k
    using D(6) [of x k] that by simp
  show "\<exists>k. conn (bump 1 c ob ! x) = Some k \<and> closed (C ! k)"
    if "x < length (bump 1 c ob)" "x \<notin> set A" "x \<notin> set Q" "x \<notin> set W" for x
    using D(7) [of x] that by simp
qed

lemma tinv_new:
  assumes "tinv A Q ob C W h"
    and "(A' = A @ [length ob] \<and> Q' = Q \<and> t = 0 \<and> h' = h) \<or>
         (A' = A \<and> Q' = Q @ [length ob] \<and> t = 1 \<and> h' = h @ [length ob])"
  shows "tinv A' Q' (ob @ [\<lparr>conn = Some (length C), pool_ref = True, times_acquired = t\<rparr>])
     (C @ [cn]) W h'"
proof (rule tinvI)
  note D = tinvD [OF assms(1)]
  let ?ob = "ob @ [\<lparr>conn = Some (length C), pool_ref = True, times_acquired = t\<rparr>]"
  have f: "length ob \<notin> set A" "length ob \<notin> set Q" "length ob \<notin> set h" "length ob \<notin> set W"
    using D(4) [of "length ob"] D(5) [of "length ob"] by auto
  have old: "?ob ! x = ob ! x" if "x < length ob" for x using that by (simp add: nth_append)
  have new: "?ob ! length ob = \<lparr>conn = Some (length C), pool_ref = True, times_acquired = t\<rparr>"
    by simp
  have lt: "x < length ob" if "x \<in> set A \<union> set Q" for x using D(4) [OF that] by simp
  show "distinct (A' @ Q')" using D(1) assms(2) f by auto
  show "times_acquired (?ob ! x) = 0 \<and> count_list h' x = 0" if "x \<in> set A'" for x
  proof (cases "x = length ob")
    case True
    with that assms(2) f show ?thesis by (auto simp: count_list_0_iff)
  next
    case False
    with that assms(2) have xa: "x \<in> set A" by auto
    with lt [of x] old [of x] D(2) [of x] assms(2) False f show ?thesis by auto
  qed
  show "times_acquired (?ob ! x) = int (count_list h' x) \<and> 0 < count_list h' x"
    if "x \<in> set Q'" for x
  proof (cases "x = length ob")
    case True
    with that assms(2) f show ?thesis by (auto simp: count_list_0_iff)
  next
    case False
    with that assms(2) have xa: "x \<in> set Q" by auto
    with lt [of x] old [of x] D(3) [of x] assms(2) False show ?thesis by auto
  qed
  show "x < length ?ob \<and> conn (?ob ! x) \<noteq> None \<and> x \<notin> set W" if "x \<in> set A' \<union> set Q'" for x
  proof (cases "x = length ob")
    case True
    with f show ?thesis by simp
  next
    case False
    with that assms(2) have xa: "x \<in> set A \<union> set Q" by auto
    with lt [of x] old [of x] D(4) [of x] show ?thesis by auto
  qed
  show "x < length ?ob" if "x \<in> set h' \<union> set W" for x
    using D(5) [of x] that assms(2) by auto
  show "k < length (C @ [cn])" if "x < length ?ob" "conn (?ob ! x) = Some k" for x k
  proof (cases "x = length ob")
    case True
    with that show ?thesis by simp
  next
    case False
    with that have "x < length ob" by simp
    with old [of x] D(6) [of x k] that show ?thesis by simp
  qed
  show "\<exists>k. conn (?ob ! x) = Some k \<and> closed ((C @ [cn]) ! k)"
    if "x < length ?ob" "x \<notin> set A'" "x \<notin> set Q'" "x \<notin> set W" for x
  proof -
    from that assms(2) have "x \<noteq> length ob" by auto
    with that have x: "x < length ob" by simp
    from that assms(2) have "x \<notin> set A" "x \<notin> set Q" by auto
    with D(7) [OF x] that obtain k where k: "conn (ob ! x) = Some k" "closed (C ! k)" by auto
    with D(6) [OF x k(1)] old [OF x] show ?thesis by (simp add: nth_append)
  qed
qed

lemma mem_remove1: "x \<in> set (remove1 c h) \<Longrightarrow> x \<in> set h"
  by (metis notin_set_remove1)

lemma tinv_release_closed:
  assumes "tinv A Q ob C W h" and "c \<in> set Q" and "conn (ob ! c) = Some k" and "closed (C ! k)"
  shows "tinv A (remove1 c Q) ob C W (remove1 c h)"
proof (rule tinvI)
  note D = tinvD [OF assms(1)]
  have dQ: "distinct Q" and cA: "c \<notin> set A" using D(1) assms(2) by auto
  show "distinct (A @ remove1 c Q)" using D(1) by auto
  show "times_acquired (ob ! x) = 0 \<and> count_list (remove1 c h) x = 0" if "x \<in> set A" for x
    using D(2) [OF that] by (simp add: count_list_remove1)
  show "times_acquired (ob ! x) = int (count_list (remove1 c h) x) \<and>
      0 < count_list (remove1 c h) x" if "x \<in> set (remove1 c Q)" for x
  proof -
    from that dQ have "x \<noteq> c" "x \<in> set Q" by auto
    with D(3) [of x] show ?thesis by (simp add: count_list_remove1)
  qed
  show "x < length ob \<and> conn (ob ! x) \<noteq> None \<and> x \<notin> set W"
    if "x \<in> set A \<union> set (remove1 c Q)" for x
    using D(4) [of x] that dQ by auto
  show "x < length ob" if "x \<in> set (remove1 c h) \<union> set W" for x
    using D(5) [of x] that mem_remove1 [of x c h] by auto
  show "k' < length C" if "x < length ob" "conn (ob ! x) = Some k'" for x k'
    using D(6) [OF that] .
  show "\<exists>k. conn (ob ! x) = Some k \<and> closed (C ! k)"
    if "x < length ob" "x \<notin> set A" "x \<notin> set (remove1 c Q)" "x \<notin> set W" for x
  proof (cases "x = c")
    case True
    with assms(3,4) show ?thesis by simp
  next
    case False
    with that have "x \<notin> set Q" by simp
    with D(7) [of x] that show ?thesis by simp
  qed
qed

lemma tinv_unhold:
  assumes "tinv A Q ob C W h" and "c \<notin> set A" and "c \<notin> set Q"
  shows "tinv A Q (bump d c ob) C W (remove1 c h)"
proof (rule tinvI)
  note D = tinvD [OF assms(1)]
  show "distinct (A @ Q)" by (rule D(1))
  show "times_acquired (bump d c ob ! x) = 0 \<and> count_list (remove1 c h) x = 0"
    if "x \<in> set A" for x
  proof -
    from that assms(2) have "x \<noteq> c" by auto
    with D(2) [OF that] show ?thesis by (simp add: count_list_remove1)
  qed
  show "times_acquired (bump d c ob ! x) = int (count_list (remove1 c h) x) \<and>
      0 < count_list (remove1 c h) x" if "x \<in> set Q" for x
  proof -
    from that assms(3) have "x \<noteq> c" by auto
    with D(3) [OF that] show ?thesis by (simp add: count_list_remove1)
  qed
  show "x < length (bump d c ob) \<and> conn (bump d c ob ! x) \<noteq> None \<and> x \<notin> set W"
    if "x \<in> set A \<union> set Q" for x
    using D(4) [OF that] by simp
  show "x < length (bump d c ob)" if "x \<in> set (remove1 c h) \<union> set W" for x
    using D(5) [of x] that mem_remove1 [of x c h] by auto
  show "k < length C" if "x < length (bump d c ob)" "conn (bump d c ob ! x) = Some k" for x k
    using D(6) [of x k] that by simp
  show "\<exists>k. conn (bump d c ob ! x) = Some k \<and> closed (C ! k)"
    if "x < length (bump d c ob)" "x \<notin> set A" "x \<notin> set Q" "x \<notin> set W" for x
    using D(7) [of x] that by simp
qed

lemma tinv_unhold_same:
  assumes "tinv A Q ob C W h" and "c \<notin> set A" and "c \<notin> set Q"
  shows "tinv A Q ob C W (remove1 c h)"
proof -
  have "bump 0 c ob = ob" by (simp add: bump_def)
  with tinv_unhold [OF assms, of 0] show ?thesis by simp
qed

lemma tinv_release_stay:
  assumes "tinv A Q ob C W h" and "c \<in> set Q" and "times_acquired (ob ! c) - 1 \<noteq> 0"
  shows "tinv A Q (bump (- 1) c ob) C W (remove1 c h)"
proof (rule tinvI)
  note D = tinvD [OF assms(1)]
  have c: "c < length ob" "c \<notin> set A" "c \<in> set h"
    "times_acquired (ob ! c) = int (count_list h c)" "0 < count_list h c"
    using D(1) D(3) [of c] D(4) [of c] assms(2) by (auto simp: count_pos_mem)
  show "distinct (A @ Q)" by (rule D(1))
  show "times_acquired (bump (- 1) c ob ! x) = 0 \<and> count_list (remove1 c h) x = 0"
    if "x \<in> set A" for x
  proof -
    from that c(2) have "x \<noteq> c" by auto
    with D(2) [OF that] show ?thesis by (simp add: count_list_remove1)
  qed
  show "times_acquired (bump (- 1) c ob ! x) = int (count_list (remove1 c h) x) \<and>
      0 < count_list (remove1 c h) x" if "x \<in> set Q" for x
  proof (cases "x = c")
    case True
    with c assms(3) show ?thesis by (simp add: count_list_remove1)
  next
    case False
    with D(3) [OF that] show ?thesis by (simp add: count_list_remove1)
  qed
  show "x < length (bump (- 1) c ob) \<and> conn (bump (- 1) c ob ! x) \<noteq> None \<and> x \<notin> set W"
    if "x \<in> set A \<union> set Q" for x
    using D(4) [OF that] by simp
  show "x < length (bump (- 1) c ob)" if "x \<in> set (remove1 c h) \<union> set W" for x
    using D(5) [of x] that mem_remove1 [of x c h] by auto
  show "k < length C" if "x < length (bump (- 1) c ob)" "conn (bump (- 1) c ob ! x) = Some k"
    for x k
    using D(6) [of x k] that by simp
  show "\<exists>k. conn (bump (- 1) c ob ! x) = Some k \<and> closed (C ! k)"
    if "x < length (bump (- 1) c ob)" "x \<notin> set A" "x \<notin> set Q" "x \<notin> set W" for x
    using D(7) [of x] that by simp
qed

lemma tinv_release_move:
  assumes "tinv A Q ob C W h" and "c \<in> set Q" and "times_acquired (ob ! c) - 1 = 0"
  shows "tinv (A @ [c]) (remove1 c Q) (bump (- 1) c ob) C W (remove1 c h)"
proof (rule tinvI)
  note D = tinvD [OF assms(1)]
  have c: "c < length ob" "c \<notin> set A" "c \<in> set h"
    "times_acquired (ob ! c) = int (count_list h c)" "0 < count_list h c"
    using D(1) D(3) [of c] D(4) [of c] assms(2) by (auto simp: count_pos_mem)
  have dQ: "distinct Q" using D(1) by simp
  show "distinct ((A @ [c]) @ remove1 c Q)" using D(1) c(2) by auto
  show "times_acquired (bump (- 1) c ob ! x) = 0 \<and> count_list (remove1 c h) x = 0"
    if "x \<in> set (A @ [c])" for x
  proof (cases "x = c")
    case True
    with c assms(3) show ?thesis by (simp add: count_list_remove1)
  next
    case False
    with that have "x \<in> set A" by simp
    with D(2) [of x] False show ?thesis by (simp add: count_list_remove1)
  qed
  show "times_acquired (bump (- 1) c ob ! x) = int (count_list (remove1 c h) x) \<and>
      0 < count_list (remove1 c h) x" if "x \<in> set (remove1 c Q)" for x
  proof -
    from that dQ have "x \<noteq> c" "x \<in> set Q" by auto
    with D(3) [of x] show ?thesis by (simp add: count_list_remove1)
  qed
  show "x < length (bump (- 1) c ob) \<and> conn (bump (- 1) c ob ! x) \<noteq> None \<and> x \<notin> set W"
    if "x \<in> set (A @ [c]) \<union> set (remove1 c Q)" for x
  proof -
    from that assms(2) have "x \<in> set A \<union> set Q" using mem_remove1 [of x c Q] by auto
    from D(4) [OF this] show ?thesis by simp
  qed
  show "x < length (bump (- 1) c ob)" if "x \<in> set (remove1 c h) \<union> set W" for x
    using D(5) [of x] that mem_remove1 [of x c h] by auto
  show "k < length C" if "x < length (bump (- 1) c ob)" "conn (bump (- 1) c ob ! x) = Some k"
    for x k
    using D(6) [of x k] that by simp
  show "\<exists>k. conn (bump (- 1) c ob ! x) = Some k \<and> closed (C ! k)"
    if "x < length (bump (- 1) c ob)" "x \<notin> set (A @ [c])" "x \<notin> set (remove1 c Q)"
      "x \<notin> set W" for x
  proof -
    from that have "x \<noteq> c" "x \<notin> set A" by auto
    with that have "x \<notin> set Q" by simp
    with D(7) [of x] that \<open>x \<notin> set A\<close> show ?thesis by simp
  qed
qed

lemma tinv_close_all:
  assumes "tinv A Q ob C W h"
  shows "tinv [] [] ob C (W @ A @ Q) h"
proof (rule tinvI)
  note D = tinvD [OF assms(1)]
  show "distinct ([] @ [])" by simp
  show "times_acquired (ob ! x) = 0 \<and> count_list h x = 0" if "x \<in> set []" for x
    using that by simp
  show "times_acquired (ob ! x) = int (count_list h x) \<and> 0 < count_list h x"
    if "x \<in> set []" for x
    using that by simp
  show "x < length ob \<and> conn (ob ! x) \<noteq> None \<and> x \<notin> set (W @ A @ Q)"
    if "x \<in> set [] \<union> set []" for x
    using that by simp
  show "x < length ob" if "x \<in> set h \<union> set (W @ A @ Q)" for x
    using D(4) [of x] D(5) [of x] that by auto
  show "k < length C" if "x < length ob" "conn (ob ! x) = Some k" for x k
    using D(6) [OF that] .
  show "\<exists>k. conn (ob ! x) = Some k \<and> closed (C ! k)"
    if "x < length ob" "x \<notin> set []" "x \<notin> set []" "x \<notin> set (W @ A @ Q)" for x
    using D(7) [of x] that by simp
qed

lemma closed_update: "closed (C[k := (C ! k)\<lparr>closed := True\<rparr>] ! j) = (closed (C ! j) \<or> (j = k \<and> k < length C))"
  by (cases "k < length C"; cases "j = k") (simp_all add: list_update_beyond)

lemma tinv_conn_lost:
  assumes "tinv A Q ob C W h"
  shows "tinv A Q ob (C[k := (C ! k)\<lparr>closed := True\<rparr>]) W h"
proof (rule tinvI)
  note D = tinvD [OF assms(1)]
  show "distinct (A @ Q)" by (rule D(1))
  show "times_acquired (ob ! x) = 0 \<and> count_list h x = 0" if "x \<in> set A" for x
    using D(2) [OF that] .
  show "times_acquired (ob ! x) = int (count_list h x) \<and> 0 < count_list h x"
    if "x \<in> set Q" for x
    using D(3) [OF that] .
  show "x < length ob \<and> conn (ob ! x) \<noteq> None \<and> x \<notin> set W" if "x \<in> set A \<union> set Q" for x
    using D(4) [OF that] .
  show "x < length ob" if "x \<in> set h \<union> set W" for x using D(5) [OF that] .
  show "j < length (C[k := (C ! k)\<lparr>closed := True\<rparr>])"
    if "x < length ob" "conn (ob ! x) = Some j" for x j
    using D(6) [OF that] by simp
  show "\<exists>j. conn (ob ! x) = Some j \<and> closed (C[k := (C ! k)\<lparr>closed := True\<rparr>] ! j)"
    if "x < length ob" "x \<notin> set A" "x \<notin> set Q" "x \<notin> set W" for x
    using D(7) [OF that] by (auto simp: closed_update)
qed

lemma tinv_pc_close:
  assumes "tinv A Q ob C W h" and "c \<in> set W"
  shows "tinv A Q (ob[c := (ob ! c)\<lparr>conn := None, pool_ref := False\<rparr>])
     (C[k := (C ! k)\<lparr>closed := True\<rparr>]) W h"
proof (rule tinvI)
  let ?ob = "ob[c := (ob ! c)\<lparr>conn := None, pool_ref := False\<rparr>]"
  let ?C = "C[k := (C ! k)\<lparr>closed := True\<rparr>]"
  note D = tinvD [OF tinv_conn_lost [OF assms(1), of k]]
  have c: "c < length ob" "c \<notin> set A" "c \<notin> set Q" using D(4) [of c] D(5) [of c] assms(2) by auto
  have ne: "?ob ! x = ob ! x" if "x \<noteq> c" for x using that by simp
  have t: "times_acquired (?ob ! x) = times_acquired (ob ! x)" for x
    by (cases "x = c") (simp_all add: c(1))
  show "distinct (A @ Q)" by (rule D(1))
  show "times_acquired (?ob ! x) = 0 \<and> count_list h x = 0" if "x \<in> set A" for x
    using D(2) [OF that] by (simp only: t)
  show "times_acquired (?ob ! x) = int (count_list h x) \<and> 0 < count_list h x"
    if "x \<in> set Q" for x
    using D(3) [OF that] by (simp only: t)
  show "x < length ?ob \<and> conn (?ob ! x) \<noteq> None \<and> x \<notin> set W" if "x \<in> set A \<union> set Q" for x
  proof -
    from that c have "x \<noteq> c" by auto
    with D(4) [OF that] ne [of x] show ?thesis by simp
  qed
  show "x < length ?ob" if "x \<in> set h \<union> set W" for x using D(5) [OF that] by simp
  show "j < length ?C" if "x < length ?ob" "conn (?ob ! x) = Some j" for x j
  proof -
    from that c(1) have "x \<noteq> c" by auto
    with D(6) [of x j] that ne [of x] show ?thesis by simp
  qed
  show "\<exists>j. conn (?ob ! x) = Some j \<and> closed (?C ! j)"
    if "x < length ?ob" "x \<notin> set A" "x \<notin> set Q" "x \<notin> set W" for x
  proof -
    from that assms(2) have "x \<noteq> c" by auto
    with D(7) [of x] that ne [of x] show ?thesis by simp
  qed
qed

lemma track_inv_pair:
  "track_inv (s, h) = tinv (available s) (acquired s) (objs s) (conns s) (waiters s) h"
  by (simp add: track_inv_def)

lemma objs_decrement: "objs (decrement_acquired c s) = bump (- 1) c (objs s)"
  by (simp add: decrement_acquired_def bump_def)

lemma objs_increment: "objs (increment_acquired c s) = bump 1 c (objs s)"
  by (simp add: increment_acquired_def bump_def)

lemma pc_closed_cases:
  "(pc_closed s c = Inr False) = (\<exists>k. conn (objs s ! c) = Some k \<and> \<not> closed (conns s ! k))"
  "(pc_closed s c = Inr True) = (\<exists>k. conn (objs s ! c) = Some k \<and> closed (conns s ! k))"
  "(\<exists>e. pc_closed s c = Inl e) = (conn (objs s ! c) = None)"
  by (auto simp: pc_closed_def split: option.splits)

lemma release_track:
  assumes "track_inv (s, h)" and "c \<in> set h"
  shows "track_inv (snd (release c s), remove1 c h)"
proof -
  let ?A = "available s" and ?Q = "acquired s" and ?ob = "objs s"
  from assms(1) have T: "tinv ?A ?Q ?ob (conns s) (waiters s) h" by (simp add: track_inv_pair)
  note D = tinvD [OF T]
  have cl: "c < length ?ob" using D(5) [of c] assms(2) by simp
  have cA: "c \<notin> set ?A" using D(2) [of c] assms(2) by (auto simp: count_list_0_iff)
  show ?thesis
  proof (cases "pc_closed s c")
    case (Inl e)
    then have "conn (?ob ! c) = None" using pc_closed_cases(3) [of s c] by auto
    with D(4) [of c] have "c \<notin> set ?Q" by auto
    from tinv_unhold_same [OF T cA this] Inl show ?thesis
      by (simp add: release_def track_inv_pair)
  next
    case (Inr b)
    show ?thesis
    proof (cases b)
      case True
      with Inr obtain k where k: "conn (?ob ! c) = Some k" "closed (conns s ! k)"
        using pc_closed_cases(2) [of s c] by auto
      show ?thesis
      proof (cases "c \<in> set ?Q")
        case True
        from tinv_release_closed [OF T True k] Inr \<open>b\<close> True show ?thesis
          by (simp add: release_def deque_remove_def create_notify_task_def track_inv_pair)
      next
        case False
        from tinv_unhold_same [OF T cA False] Inr \<open>b\<close> False show ?thesis
          by (simp add: release_def deque_remove_def track_inv_pair)
      qed
    next
      case False
      let ?s1 = "decrement_acquired c s"
      have s1: "available ?s1 = ?A" "acquired ?s1 = ?Q" "conns ?s1 = conns s"
        "waiters ?s1 = waiters s" "objs ?s1 = bump (- 1) c ?ob"
        by (simp_all add: decrement_acquired_def bump_def)
      have t1: "times ?s1 c = times_acquired (?ob ! c) - 1"
        using cl by (simp add: times_def s1)
      show ?thesis
      proof (cases "c \<in> set ?Q")
        case inQ: True
        show ?thesis
        proof (cases "times_acquired (?ob ! c) - 1 = 0")
          case True
          from tinv_release_move [OF T inQ True] Inr False inQ True t1 show ?thesis
            by (simp add: release_def Let_def deque_remove_def create_notify_task_def
                track_inv_pair s1)
        next
          case ne: False
          from tinv_release_stay [OF T inQ ne] Inr False ne t1 show ?thesis
            by (simp add: release_def Let_def create_notify_task_def track_inv_pair s1)
        qed
      next
        case notQ: False
        from tinv_unhold [OF T cA notQ, of "- 1"] Inr False notQ show ?thesis
          by (simp add: release_def Let_def deque_remove_def create_notify_task_def
              track_inv_pair s1)
      qed
    qed
  qed
qed

lemma reuse_scan_split:
  "reuse_scan s q = (r, q') \<Longrightarrow>
     \<exists>pre. (\<forall>c \<in> set pre. pc_closed s c \<noteq> Inr False) \<and>
       (case r of
          Inl e \<Rightarrow> q = pre @ q'
        | Inr None \<Rightarrow> q = pre \<and> q' = []
        | Inr (Some c) \<Rightarrow> q = pre @ c # q' \<and> pc_closed s c = Inr False)"
proof (induction q)
  case Nil
  then show ?case by auto
next
  case (Cons x q)
  show ?case
  proof (cases "pc_closed s x")
    case (Inl e)
    with Cons.prems have "r = Inl e" "q' = q" by auto
    with Inl show ?thesis by (intro exI [of _ "[x]"]) simp
  next
    case (Inr b)
    show ?thesis
    proof (cases b)
      case True
      with Inr Cons.prems have "reuse_scan s q = (r, q')" by simp
      from Cons.IH [OF this] obtain pre where
        pre: "\<forall>c \<in> set pre. pc_closed s c \<noteq> Inr False"
          "case r of Inl e \<Rightarrow> q = pre @ q' | Inr None \<Rightarrow> q = pre \<and> q' = []
           | Inr (Some c) \<Rightarrow> q = pre @ c # q' \<and> pc_closed s c = Inr False"
        by blast
      with Inr True show ?thesis
        by (intro exI [of _ "x # pre"]) (auto split: sum.splits option.splits)
    next
      case False
      with Inr Cons.prems have "r = Inr (Some x)" "q' = q" by auto
      with Inr False show ?thesis by (intro exI [of _ "[]"]) simp
    qed
  qed
qed

lemma step_acquire_held:
  "step (Acquire a) (s, h) = (snd (acquire a s), held_after (fst (acquire a s)) h)"
  by (cases "acquire a s"; cases "fst (acquire a s)") auto

lemma step_opened_held:
  "open_frame s = Some p \<Longrightarrow>
     step (Opened b) (s, h) = (snd (acquire_opened b p s), held_after (fst (acquire_opened b p s)) h)"
  by (cases "acquire_opened b p s"; cases "fst (acquire_opened b p s)") auto

lemma not_open_conv:
  "(pc_closed s c \<noteq> Inr False) = (\<not> (\<exists>k. conn (objs s ! c) = Some k \<and> \<not> closed (conns s ! k)))"
  using pc_closed_cases(1) [of s c] by simp

lemma acquire_iter_empty_track:
  assumes "track_inv (s, h)" and "available s = []"
  shows "track_inv (snd (acquire_iter p s), held_after (fst (acquire_iter p s)) h)"
proof (cases "int (length (acquired s)) < max_conns s")
  case True
  with assms show ?thesis
    by (simp add: acquire_iter_def Let_def track_inv_pair)
next
  case False
  let ?bad = "\<lambda>c. \<not> times s c < max_times_acquired s"
  from assms(1) have T: "tinv [] (acquired s) (objs s) (conns s) (waiters s) h"
    by (simp add: track_inv_pair assms(2))
  note M = acquire_iter_multiplex [OF assms(2) False, of p]
  show ?thesis
  proof (cases "dropWhile ?bad (acquired s)")
    case Nil
    with M T show ?thesis by (simp add: track_inv_pair assms(2) del: dropWhile_eq_Nil_conv)
  next
    case (Cons c post)
    let ?Q' = "post @ takeWhile ?bad (acquired s) @ [c]"
    have Q: "acquired s = takeWhile ?bad (acquired s) @ c # post"
      using takeWhile_dropWhile_id [of ?bad "acquired s"] Cons by simp
    have d: "distinct (acquired s)" using tinvD(1) [OF T] by simp
    have sq: "set ?Q' = set (acquired s)" by (subst (2) Q) auto
    have dq: "distinct ?Q'" using d by (subst (asm) Q) auto
    have cq: "c \<in> set ?Q'" by simp
    from tinv_lend_shared [OF tinv_perm [OF T sq dq] cq] M Cons show ?thesis
      by (simp add: track_inv_pair assms(2) objs_increment increment_acquired_def bump_def)
  qed
qed

lemma acquire_iter_drop:
  "reuse_scan s (available s) = (Inr None, q) \<Longrightarrow>
     acquire_iter p s = acquire_iter p (s\<lparr>available := []\<rparr>)"
  using reuse_scan_none [of s "available s" q]
  by (simp add: acquire_iter_def Let_def times_def [abs_def])

lemma acquire_iter_track:
  assumes "track_inv (s, h)"
  shows "track_inv (snd (acquire_iter p s), held_after (fst (acquire_iter p s)) h)"
proof (cases "reuse_scan s (available s)")
  case (Pair r q)
  from assms have T: "tinv (available s) (acquired s) (objs s) (conns s) (waiters s) h"
    by (simp add: track_inv_pair)
  from reuse_scan_split [OF Pair] obtain pre where
    pre: "\<And>c. c \<in> set pre \<Longrightarrow>
         \<not> (\<exists>k. conn (objs s ! c) = Some k \<and> \<not> closed (conns s ! k))"
    and sp: "case r of Inl e \<Rightarrow> available s = pre @ q
        | Inr None \<Rightarrow> available s = pre \<and> q = []
        | Inr (Some c) \<Rightarrow> available s = pre @ c # q \<and> pc_closed s c = Inr False"
    by (auto simp: not_open_conv)
  show ?thesis
  proof (cases r)
    case (Inl e)
    with sp have "available s = pre @ q" by simp
    with T have "tinv (pre @ q) (acquired s) (objs s) (conns s) (waiters s) h" by simp
    from tinv_drop [OF this pre] Pair Inl show ?thesis
      by (simp add: acquire_iter_def track_inv_pair)
  next
    case (Inr f)
    show ?thesis
    proof (cases f)
      case None
      with Inr sp have "available s = pre @ []" by simp
      with T have "tinv (pre @ []) (acquired s) (objs s) (conns s) (waiters s) h" by simp
      from tinv_drop [OF this pre]
      have "track_inv (s\<lparr>available := []\<rparr>, h)" by (simp add: track_inv_pair)
      from acquire_iter_empty_track [OF this, of p]
      have t: "track_inv (snd (acquire_iter p (s\<lparr>available := []\<rparr>)),
          held_after (fst (acquire_iter p (s\<lparr>available := []\<rparr>))) h)"
        by simp
      from Pair Inr None have "reuse_scan s (available s) = (Inr None, q)" by simp
      from acquire_iter_drop [OF this, of p] t show ?thesis by (simp only:)
    next
      case (Some c)
      with Inr sp have "available s = pre @ c # q" by simp
      with T have "tinv (pre @ c # q) (acquired s) (objs s) (conns s) (waiters s) h" by simp
      from tinv_lend_idle [OF tinv_drop [OF this pre]] Pair Inr Some show ?thesis
        by (simp add: acquire_iter_def track_inv_pair objs_increment increment_acquired_def
            bump_def)
    qed
  qed
qed

lemma track_inv_locked: "track_inv (s\<lparr>locked := b\<rparr>, h) = track_inv (s, h)"
  by (simp add: track_inv_pair)

lemma acquire_track:
  "track_inv (s, h) \<Longrightarrow> track_inv (step (Acquire a) (s, h))"
  unfolding step_acquire_held acquire_def
  by (rule acquire_iter_track) (simp add: track_inv_locked)

lemma acquire_opened_track:
  assumes "track_inv (s, h)"
  shows "track_inv (snd (acquire_opened b p s), held_after (fst (acquire_opened b p s)) h)"
proof (cases b)
  case False
  with assms show ?thesis
    by (simp add: acquire_opened_def get_connection_def Connection_open_def track_inv_pair)
next
  case True
  from assms have T: "tinv (available s) (acquired s) (objs s) (conns s) (waiters s) h"
    by (simp add: track_inv_pair)
  from tinv_new [OF T, of "available s" "acquired s @ [length (objs s)]" 1
      "h @ [length (objs s)]"] True
  show ?thesis
    by (simp add: acquire_opened_def get_connection_def Connection_open_def track_inv_pair
        increment_acquired_def)
qed

lemma init_pool_loop_track:
  "track_inv (s, h) \<Longrightarrow> track_inv (snd (init_pool_loop n oks s), h)"
proof (induction n arbitrary: oks s)
  case 0
  then show ?case by simp
next
  case (Suc n)
  let ?b = "case oks of [] \<Rightarrow> True | b # _ \<Rightarrow> b"
  show ?case
  proof (cases ?b)
    case False
    with Suc.prems show ?thesis by (simp add: get_connection_def Connection_open_def)
  next
    case True
    from Suc.prems have T: "tinv (available s) (acquired s) (objs s) (conns s) (waiters s) h"
      by (simp add: track_inv_pair)
    let ?cn = "\<lparr>closed = False, c_url = url s, c_ssl_context = ssl_context s,
                opened_with = default_params s\<rparr>"
    let ?s2 = "s\<lparr>conns := conns s @ [?cn],
                 objs := objs s @ [\<lparr>conn = Some (length (conns s)), pool_ref = True,
                                    times_acquired = 0\<rparr>],
                 available := available s @ [length (objs s)]\<rparr>"
    from tinv_new [OF T, of "available s @ [length (objs s)]" "acquired s" 0 h ?cn]
    have "track_inv (?s2, h)" by (simp add: track_inv_pair)
    from Suc.IH [OF this, of "tl oks"] True show ?thesis
      by (simp add: get_connection_def Connection_open_def)
  qed
qed

lemma pc_close_track:
  assumes "track_inv (s, h)" and "c \<in> set (waiters s)"
  shows "track_inv (snd (pc_close b c s), h)"
proof -
  from assms have T: "tinv (available s) (acquired s) (objs s) (conns s) (waiters s) h"
    by (simp add: track_inv_pair)
  show ?thesis
  proof (cases "conn (objs s ! c)")
    case None
    with assms(1) show ?thesis by (simp add: pc_close_def)
  next
    case (Some k)
    from tinv_pc_close [OF T assms(2), of k] Some assms(1) show ?thesis
      by (cases b) (simp_all add: pc_close_def Connection_close_def track_inv_pair)
  qed
qed

lemma finish_closes_track:
  "track_inv (s, h) \<Longrightarrow> set cs \<subseteq> set (waiters s) \<Longrightarrow> track_inv (finish_closes ok cs s, h)"
proof (induction cs arbitrary: s)
  case Nil
  then show ?case by simp
next
  case (Cons c cs)
  from Cons.prems pc_close_track [of s h c "ok c"]
  have t: "track_inv (snd (pc_close (ok c) c s), h)" by simp
  from pc_close_frame [of "ok c" c s] Cons.prems
  have "set cs \<subseteq> set (waiters (snd (pc_close (ok c) c s)))" by simp
  from Cons.IH [OF t this] show ?case by simp
qed

lemma gather_track:
  "track_inv (s, h) \<Longrightarrow> set cs \<subseteq> set (waiters s) \<Longrightarrow> track_inv (snd (gather ok late cs s), h)"
proof (induction cs arbitrary: s)
  case Nil
  then show ?case by simp
next
  case (Cons c cs)
  show ?case
  proof (cases "pc_close (ok c) c s")
    case (Pair r s1)
    from Cons.prems pc_close_track [of s h c "ok c"] Pair have t: "track_inv (s1, h)" by simp
    from pc_close_frame [of "ok c" c s] Pair have "waiters s1 = waiters s" by simp
    with Cons.prems have w: "set cs \<subseteq> set (waiters s1)" by simp
    then have "set (take late cs) \<subseteq> set (waiters s1)"
      using set_take_subset [of late cs] by blast
    from Cons.IH [OF t w] finish_closes_track [OF t this, of ok] Pair show ?thesis
      by (cases r) simp_all
  qed
qed

lemma close_track:
  assumes "track_inv (s, h)"
  shows "track_inv (snd (close ok finish late s), h)"
proof -
  let ?s0 = "s\<lparr>available := [], acquired := [],
               waiters := waiters s @ available s @ acquired s\<rparr>"
  from assms have "tinv (available s) (acquired s) (objs s) (conns s) (waiters s) h"
    by (simp add: track_inv_pair)
  from tinv_close_all [OF this] have "track_inv (?s0, h)" by (simp add: track_inv_pair)
  from gather_track [OF this, of "sort_key finish (available s @ acquired s)" ok late]
  show ?thesis by (simp add: close_def Let_def)
qed

lemma conn_lost_track: "track_inv (s, h) \<Longrightarrow> track_inv (conn_lost c s, h)"
  using tinv_conn_lost [of "available s" "acquired s" "objs s" "conns s" "waiters s" h]
  by (simp add: conn_lost_def track_inv_pair split: option.splits)

lemma step_track: "track_inv w \<Longrightarrow> enabled e w \<Longrightarrow> track_inv (step e w)"
proof (cases w)
  case (Pair s h)
  assume a: "track_inv w" "enabled e w"
  show ?thesis
  proof (cases e)
    case (InitPool oks)
    with a Pair show ?thesis by (simp add: init_pool_def init_pool_loop_track)
  next
    case (Acquire p)
    with a Pair show ?thesis using acquire_track by simp
  next
    case (Opened b)
    with a Pair obtain p where p: "open_frame s = Some p" by auto
    from a Pair have "track_inv (s, h)" by simp
    from acquire_opened_track [OF this, of b p] Opened Pair p show ?thesis
      by (simp only: step_opened_held)
  next
    case (Release c)
    with a Pair show ?thesis by (simp add: release_track)
  next
    case (Close ok finish late)
    with a Pair show ?thesis by (simp add: close_track)
  next
    case (CloseDone c b)
    with a Pair show ?thesis by (simp add: pc_close_track)
  next
    case (ConnLost c)
    with a Pair show ?thesis by (simp add: conn_lost_track)
  qed
qed

lemma run_track: "track_inv w \<Longrightarrow> legal es w \<Longrightarrow> track_inv (run es w)"
proof (induction es arbitrary: w)
  case Nil
  then show ?case by simp
next
  case (Cons e es)
  from Cons.prems have "track_inv (step e w)" by (simp add: step_track)
  with Cons.IH [of "step e w"] Cons.prems show ?case by simp
qed

text \<open>
  C3 as stated fails, in two ways. After a \<open>close\<close> that raised, a pooled connection
  whose close had not finished is live and in neither deque. And after a caller has
  released the same connection twice, \<open>available\<close> holds an entry with counter -1.
\<close>

theorem tracking_invariant_counterexample:
  "legal [InitPool [], Close first_fails in_order 0] (default_pool 2 2 16, []) \<and>
   pc_closed pool_close_failed 1 = Inr False \<and>
   1 \<notin> set (available pool_close_failed) \<and> 1 \<notin> set (acquired pool_close_failed) \<and>
   available pool_double_release = [0] \<and> times pool_double_release 0 = - 1"
  by code_simp

text \<open>
  C3, amended. Callers release only connections they hold (one release for each
  acquire that returned). Then in every state reached from a freshly constructed pool
  no pooled connection is tracked twice, in particular never in both deques; every
  entry of \<open>available\<close> has counter 0 and every entry of \<open>acquired\<close> has a counter of at
  least 1, equal to the number of callers holding it, so that a tracked connection is
  in \<open>available\<close> exactly when its counter is 0; and every pooled connection whose
  connection is not closed and which was not handed to \<open>close\<close> is in exactly one of
  the two deques.
\<close>

theorem tracking_invariant:
  assumes "s0 = ConnectionPool u ssl usr pw lg ts rt maxc minc mta mi"
    and "legal es (s0, [])"
    and "run es (s0, []) = (s, h)"
  shows "distinct (available s @ acquired s) \<and>
    (\<forall>c \<in> set (available s). times s c = 0) \<and>
    (\<forall>c \<in> set (acquired s). 1 \<le> times s c \<and> times s c = int (count_list h c)) \<and>
    (\<forall>c \<in> set (available s) \<union> set (acquired s).
       (c \<in> set (available s)) = (times s c = 0)) \<and>
    (\<forall>c < length (objs s). pc_closed s c = Inr False \<and> c \<notin> set (waiters s) \<longrightarrow>
       (c \<in> set (available s)) \<noteq> (c \<in> set (acquired s)))"
proof -
  have "track_inv (s0, [])"
    by (simp add: track_inv_pair assms(1) ConnectionPool_def tinv_def)
  from run_track [OF this assms(2)] assms(3)
  have T: "tinv (available s) (acquired s) (objs s) (conns s) (waiters s) h"
    by (simp add: track_inv_pair)
  note D = tinvD [OF T]
  have 1: "distinct (available s @ acquired s)" by (rule D(1))
  have 2: "times s c = 0" if "c \<in> set (available s)" for c
    using D(2) [OF that] by (simp add: times_def)
  have 3: "1 \<le> times s c \<and> times s c = int (count_list h c)" if "c \<in> set (acquired s)" for c
    using D(3) [OF that] by (simp add: times_def)
  have 4: "(c \<in> set (available s)) = (times s c = 0)"
    if "c \<in> set (available s) \<union> set (acquired s)" for c
    using that 2 [of c] 3 [of c] by auto
  have 5: "(c \<in> set (available s)) \<noteq> (c \<in> set (acquired s))"
    if "c < length (objs s)" "pc_closed s c = Inr False" "c \<notin> set (waiters s)" for c
  proof -
    from that(2) have "\<not> (\<exists>k. conn (objs s ! c) = Some k \<and> closed (conns s ! k))"
      using pc_closed_cases(1) [of s c] by auto
    with D(7) [OF that(1)] that(3) have "c \<in> set (available s) \<or> c \<in> set (acquired s)"
      by blast
    with 1 show ?thesis by auto
  qed
  show ?thesis using 1 2 3 4 5 by blast
qed

theorem tracking_invariant_witness:
  "legal busy_trace (default_pool 2 1 16, []) \<and>
   available (fst (run busy_trace (default_pool 2 1 16, []))) = [] \<and>
   acquired (fst (run busy_trace (default_pool 2 1 16, []))) = [0] \<and>
   snd (run busy_trace (default_pool 2 1 16, [])) = [0] \<and>
   pc_closed (fst (run busy_trace (default_pool 2 1 16, []))) 0 = Inr False \<and>
   times (fst (run busy_trace (default_pool 2 1 16, []))) 0 = 1"
proof -
  let ?w = "run busy_trace (default_pool 2 1 16, [])"
  have l: "legal busy_trace (default_pool 2 1 16, [])" by code_simp
  have r: "?w = (fst ?w, snd ?w)" by simp
  have v: "available (fst ?w) = []" "acquired (fst ?w) = [0]" "snd ?w = [0]"
    "pc_closed (fst ?w) 0 = Inr False"
    by code_simp+
  from tracking_invariant [OF default_pool_def l r] v
  have "times (fst ?w) 0 = 1" by simp
  with l v show ?thesis by simp
qed

section \<open>Properties of close\<close>

lemma pc_close_other: "d \<noteq> c \<Longrightarrow> objs (snd (pc_close b c s)) ! d = objs s ! d"
  by (simp add: pc_close_def Connection_close_def split: option.splits)

lemma finish_closes_other: "d \<notin> set cs \<Longrightarrow> objs (finish_closes ok cs s) ! d = objs s ! d"
  by (induction cs arbitrary: s) (simp_all add: pc_close_other)

lemma pc_close_ok:
  assumes "c < length (objs s)" and "conn (objs s ! c) = Some k"
  shows "fst (pc_close True c s) = Inr () \<and>
    length (objs (snd (pc_close True c s))) = length (objs s) \<and>
    (\<forall>d. d \<noteq> c \<longrightarrow> objs (snd (pc_close True c s)) ! d = objs s ! d) \<and>
    conn (objs (snd (pc_close True c s)) ! c) = None \<and>
    \<not> pool_ref (objs (snd (pc_close True c s)) ! c) \<and>
    length (conns (snd (pc_close True c s))) = length (conns s) \<and>
    (\<forall>j. closed (conns s ! j) \<longrightarrow> closed (conns (snd (pc_close True c s)) ! j)) \<and>
    (k < length (conns s) \<longrightarrow> closed (conns (snd (pc_close True c s)) ! k))"
  using assms by (simp add: pc_close_def Connection_close_def closed_update)

lemma gather_all_ok:
  assumes "distinct cs"
    and "\<forall>c \<in> set cs. c < length (objs s) \<and> conn (objs s ! c) \<noteq> None \<and> ok c"
  shows "fst (gather ok late cs s) = Inr () \<and>
    length (objs (snd (gather ok late cs s))) = length (objs s) \<and>
    (\<forall>d. d \<notin> set cs \<longrightarrow> objs (snd (gather ok late cs s)) ! d = objs s ! d) \<and>
    (\<forall>c \<in> set cs. conn (objs (snd (gather ok late cs s)) ! c) = None \<and>
        \<not> pool_ref (objs (snd (gather ok late cs s)) ! c)) \<and>
    length (conns (snd (gather ok late cs s))) = length (conns s) \<and>
    (\<forall>j. closed (conns s ! j) \<longrightarrow> closed (conns (snd (gather ok late cs s)) ! j)) \<and>
    (\<forall>c \<in> set cs. \<forall>k. conn (objs s ! c) = Some k \<longrightarrow> k < length (conns s) \<longrightarrow>
        closed (conns (snd (gather ok late cs s)) ! k)) \<and>
    gather ok late (cs @ rest) s = gather ok late rest (snd (gather ok late cs s))"
  using assms
proof (induction cs arbitrary: s)
  case Nil
  then show ?case by simp
next
  case (Cons c cs)
  from Cons.prems obtain k where k: "c < length (objs s)" "conn (objs s ! c) = Some k" "ok c"
    by auto
  let ?s1 = "snd (pc_close True c s)"
  let ?s2 = "snd (gather ok late cs ?s1)"
  have P1: "fst (pc_close True c s) = Inr ()"
    and P2: "length (objs ?s1) = length (objs s)"
    and P3: "\<And>d. d \<noteq> c \<Longrightarrow> objs ?s1 ! d = objs s ! d"
    and P4: "conn (objs ?s1 ! c) = None" "\<not> pool_ref (objs ?s1 ! c)"
    and P5: "length (conns ?s1) = length (conns s)"
    and P6: "\<And>j. closed (conns s ! j) \<Longrightarrow> closed (conns ?s1 ! j)"
    and P7: "k < length (conns s) \<Longrightarrow> closed (conns ?s1 ! k)"
    using pc_close_ok [OF k(1,2)] by blast+
  have g: "gather ok late (c # xs) s = gather ok late xs ?s1" for xs
    using P1 k(3) by (cases "pc_close True c s") simp
  have nc: "c \<notin> set cs" and d: "distinct cs" using Cons.prems(1) by auto
  have pre: "\<forall>x \<in> set cs. x < length (objs ?s1) \<and> conn (objs ?s1 ! x) \<noteq> None \<and> ok x"
  proof
    fix x assume x: "x \<in> set cs"
    with nc have "x \<noteq> c" by auto
    with P3 [of x] P2 Cons.prems(2) x
    show "x < length (objs ?s1) \<and> conn (objs ?s1 ! x) \<noteq> None \<and> ok x" by simp
  qed
  have I1: "fst (gather ok late cs ?s1) = Inr ()"
    and I2: "length (objs ?s2) = length (objs ?s1)"
    and I3: "\<And>d. d \<notin> set cs \<Longrightarrow> objs ?s2 ! d = objs ?s1 ! d"
    and I4: "\<And>x. x \<in> set cs \<Longrightarrow> conn (objs ?s2 ! x) = None \<and> \<not> pool_ref (objs ?s2 ! x)"
    and I5: "length (conns ?s2) = length (conns ?s1)"
    and I6: "\<And>j. closed (conns ?s1 ! j) \<Longrightarrow> closed (conns ?s2 ! j)"
    and I7: "\<And>x j. x \<in> set cs \<Longrightarrow> conn (objs ?s1 ! x) = Some j \<Longrightarrow>
               j < length (conns ?s1) \<Longrightarrow> closed (conns ?s2 ! j)"
    and I8: "gather ok late (cs @ rest) ?s1 = gather ok late rest ?s2"
    using Cons.IH [OF d pre] by blast+
  have C3: "objs ?s2 ! x = objs s ! x" if "x \<notin> set (c # cs)" for x
    using that I3 [of x] P3 [of x] by simp
  have C4: "conn (objs ?s2 ! x) = None \<and> \<not> pool_ref (objs ?s2 ! x)" if "x \<in> set (c # cs)" for x
  proof (cases "x = c")
    case True
    with I3 [of c] nc P4 show ?thesis by simp
  next
    case False
    with that I4 [of x] show ?thesis by simp
  qed
  have C6: "closed (conns ?s2 ! j)" if "closed (conns s ! j)" for j
    using I6 [OF P6 [OF that]] .
  have C7: "closed (conns ?s2 ! j)"
    if "x \<in> set (c # cs)" "conn (objs s ! x) = Some j" "j < length (conns s)" for x j
  proof (cases "x = c")
    case True
    with that k(2) have "j = k" by simp
    with P7 that(3) I6 [of k] show ?thesis by simp
  next
    case False
    with that have x: "x \<in> set cs" by simp
    from False P3 [of x] that(2) have "conn (objs ?s1 ! x) = Some j" by simp
    from I7 [OF x this] that(3) P5 show ?thesis by simp
  qed
  have C8: "gather ok late ((c # cs) @ rest) s = gather ok late rest ?s2"
    using g [of "cs @ rest"] I8 by simp
  show ?case
    unfolding g using I1 I2 P2 C3 C4 I5 P5 C6 C7 C8
    by (intro conjI ballI allI impI) simp_all
qed

lemma gather_first_failure:
  assumes "distinct (pre @ c # post)"
    and "\<forall>x \<in> set pre. x < length (objs s) \<and> conn (objs s ! x) \<noteq> None \<and> ok x"
    and "conn (objs s ! c) \<noteq> None" and "\<not> ok c"
  shows "fst (gather ok late (pre @ c # post) s) = Inl CloseFailed \<and>
    (\<forall>d \<in> set (c # drop late post).
       objs (snd (gather ok late (pre @ c # post) s)) ! d = objs s ! d)"
proof -
  let ?s1 = "snd (gather ok late pre s)"
  have dp: "distinct pre" using assms(1) by simp
  have G3: "\<And>d. d \<notin> set pre \<Longrightarrow> objs ?s1 ! d = objs s ! d"
    and G8: "gather ok late (pre @ c # post) s = gather ok late (c # post) ?s1"
    using gather_all_ok [OF dp assms(2), of late "c # post"] by blast+
  have cp: "c \<notin> set pre" using assms(1) by auto
  from G3 [OF cp] assms(3) obtain k where k: "conn (objs ?s1 ! c) = Some k" by auto
  have pc: "pc_close (ok c) c ?s1 = (Inl CloseFailed, ?s1)"
    using k assms(4) by (simp add: pc_close_def Connection_close_def)
  have e: "gather ok late (pre @ c # post) s =
      (Inl CloseFailed, finish_closes ok (take late post) ?s1)"
    unfolding G8 using pc by simp
  have "objs (finish_closes ok (take late post) ?s1) ! d = objs s ! d"
    if "d \<in> set (c # drop late post)" for d
  proof -
    have dpost: "distinct post" and cpost: "c \<notin> set post" using assms(1) by auto
    have "set (take late post) \<inter> set (drop late post) = {}"
      using set_take_disj_set_drop_if_distinct [OF dpost, of late late] by simp
    moreover have "c \<notin> set (take late post)" using cpost in_set_takeD by fastforce
    ultimately have n: "d \<notin> set (take late post)" using that by auto
    have "d \<in> set (c # post)" using that in_set_dropD by fastforce
    with assms(1) have "d \<notin> set pre" by auto
    from G3 [OF this] finish_closes_other [OF n, of ok ?s1] show ?thesis by simp
  qed
  with e show ?thesis by simp
qed

text \<open>
  C4 as stated fails: of two idle connections, the close of the first fails while the
  close of the second is still far from finished. \<open>gather\<close> raises, so \<open>close\<close> raises
  while the second connection still reports that it is not closed: its close was not
  awaited.
\<close>

theorem close_awaits_all_counterexample:
  "legal [InitPool []] (default_pool 2 2 16, []) \<and>
   available pool_two = [0, 1] \<and> acquired pool_two = [] \<and>
   pc_closed pool_two 1 = Inr False \<and>
   fst (close first_fails in_order 0 pool_two) = Inl CloseFailed \<and>
   pc_closed (snd (close first_fails in_order 0 pool_two)) 1 = Inr False"
  by code_simp

text \<open>
  C4, amended. In every state reached from a freshly constructed pool, \<open>close\<close> empties
  both deques. If every connection close succeeds, \<open>close\<close> returns normally after all
  of them: every previously tracked pooled connection has dropped its references (so
  its own \<open>closed\<close> property raises \<open>AttributeError\<close>) and the connection it wrapped
  reports closed. If a connection close fails, \<open>close\<close> raises the first such failure
  without awaiting the close tasks that have not finished by the time it is resumed:
  their pooled connections, and the one whose close failed, are as they were.
\<close>

theorem close_fail_fast:
  assumes "s0 = ConnectionPool u ssl usr pw lg ts rt maxc minc mta mi"
    and "legal es (s0, [])"
    and "run es (s0, []) = (s, h)"
  shows "available (snd (close ok finish late s)) = [] \<and>
    acquired (snd (close ok finish late s)) = [] \<and>
    ((\<forall>c \<in> set (available s @ acquired s). ok c) \<longrightarrow>
       fst (close ok finish late s) = Inr () \<and>
       (\<forall>c \<in> set (available s @ acquired s).
          pc_closed (snd (close ok finish late s)) c = Inl AttributeError \<and>
          \<not> pool_ref (objs (snd (close ok finish late s)) ! c) \<and>
          (\<exists>k. conn (objs s ! c) = Some k \<and>
               closed (conns (snd (close ok finish late s)) ! k)))) \<and>
    (close_order finish s = pre @ c # post \<and> (\<forall>x \<in> set pre. ok x) \<and> \<not> ok c \<longrightarrow>
       fst (close ok finish late s) = Inl CloseFailed \<and>
       (\<forall>d \<in> set (c # drop late post).
          objs (snd (close ok finish late s)) ! d = objs s ! d))"
proof -
  let ?cs = "sort_key finish (available s @ acquired s)"
  let ?s0 = "s\<lparr>available := [], acquired := [],
               waiters := waiters s @ available s @ acquired s\<rparr>"
  let ?s' = "snd (close ok finish late s)"
  have cl: "close ok finish late s = gather ok late ?cs ?s0" by (simp add: close_def Let_def)
  have "track_inv (s0, [])"
    by (simp add: track_inv_pair assms(1) ConnectionPool_def tinv_def)
  from run_track [OF this assms(2)] assms(3)
  have T: "tinv (available s) (acquired s) (objs s) (conns s) (waiters s) h"
    by (simp add: track_inv_pair)
  note D = tinvD [OF T]
  have dc: "distinct ?cs" using D(1) by simp
  have sc: "set ?cs = set (available s @ acquired s)" by simp
  have wf: "x < length (objs ?s0) \<and> conn (objs ?s0 ! x) \<noteq> None" if "x \<in> set ?cs" for x
    using D(4) [of x] that by simp
  have a: "available ?s' = [] \<and> acquired ?s' = []"
    using gather_frame [of ok late ?cs ?s0] by (simp add: cl)
  have b: "fst (close ok finish late s) = Inr () \<and>
       (\<forall>c \<in> set (available s @ acquired s).
          pc_closed ?s' c = Inl AttributeError \<and> \<not> pool_ref (objs ?s' ! c) \<and>
          (\<exists>k. conn (objs s ! c) = Some k \<and> closed (conns ?s' ! k)))"
    if ok: "\<forall>c \<in> set (available s @ acquired s). ok c"
  proof -
    have pre: "\<forall>c \<in> set ?cs. c < length (objs ?s0) \<and> conn (objs ?s0 ! c) \<noteq> None \<and> ok c"
      using wf ok by simp
    have G1: "fst (gather ok late ?cs ?s0) = Inr ()"
      and G4: "\<And>x. x \<in> set ?cs \<Longrightarrow> conn (objs (snd (gather ok late ?cs ?s0)) ! x) = None \<and>
                 \<not> pool_ref (objs (snd (gather ok late ?cs ?s0)) ! x)"
      and G7: "\<And>x k. x \<in> set ?cs \<Longrightarrow> conn (objs ?s0 ! x) = Some k \<Longrightarrow>
                 k < length (conns ?s0) \<Longrightarrow> closed (conns (snd (gather ok late ?cs ?s0)) ! k)"
      using gather_all_ok [OF dc pre, of late "[]"] by blast+
    have "pc_closed ?s' x = Inl AttributeError \<and> \<not> pool_ref (objs ?s' ! x) \<and>
          (\<exists>k. conn (objs s ! x) = Some k \<and> closed (conns ?s' ! k))"
      if x: "x \<in> set (available s @ acquired s)" for x
    proof -
      from x have xc: "x \<in> set ?cs" by simp
      from D(4) [of x] x obtain k where k: "conn (objs s ! x) = Some k" "x < length (objs s)"
        by auto
      from D(6) [OF k(2) k(1)] have "k < length (conns s)" .
      with G7 [OF xc, of k] k(1) have "closed (conns ?s' ! k)" by (simp add: cl)
      with G4 [OF xc] k(1) show ?thesis by (simp add: cl pc_closed_def)
    qed
    with G1 show ?thesis by (simp add: cl)
  qed
  have c: "fst (close ok finish late s) = Inl CloseFailed \<and>
       (\<forall>d \<in> set (c # drop late post). objs ?s' ! d = objs s ! d)"
    if f: "close_order finish s = pre @ c # post" "\<forall>x \<in> set pre. ok x" "\<not> ok c"
  proof -
    from f(1) have e: "?cs = pre @ c # post" by (simp add: close_order_def)
    have d1: "distinct (pre @ c # post)" using dc unfolding e .
    have p: "\<forall>x \<in> set pre. x < length (objs ?s0) \<and> conn (objs ?s0 ! x) \<noteq> None \<and> ok x"
      using wf f(2) unfolding e by simp
    have cn: "conn (objs ?s0 ! c) \<noteq> None" using wf [of c] unfolding e by simp
    from gather_first_failure [OF d1 p cn f(3), of late] show ?thesis
      unfolding cl e by simp
  qed
  show ?thesis using a b c by blast
qed

theorem close_fail_fast_witness:
  "legal [InitPool []] (default_pool 2 2 16, []) \<and>
   available pool_two @ acquired pool_two = [0, 1] \<and> all_succeed 0 \<and> all_succeed 1 \<and>
   fst (close all_succeed in_order 0 pool_two) = Inr () \<and>
   pc_closed (snd (close all_succeed in_order 0 pool_two)) 0 = Inl AttributeError \<and>
   pc_closed (snd (close all_succeed in_order 0 pool_two)) 1 = Inl AttributeError \<and>
   available (snd (close all_succeed in_order 0 pool_two)) = [] \<and>
   acquired (snd (close all_succeed in_order 0 pool_two)) = [] \<and>
   close_order in_order pool_two = [] @ 0 # [1] \<and> \<not> first_fails 0 \<and>
   fst (close first_fails in_order 0 pool_two) = Inl CloseFailed \<and>
   objs (snd (close first_fails in_order 0 pool_two)) ! 1 = objs pool_two ! 1 \<and>
   fst (close first_fails in_order 1 pool_two) = Inl CloseFailed \<and>
   objs (snd (close first_fails in_order 1 pool_two)) ! 0 = objs pool_two ! 0 \<and>
   pc_closed (snd (close first_fails in_order 1 pool_two)) 1 = Inl AttributeError"
proof -
  let ?w0 = "(default_pool 2 2 16, [])"
  have l: "legal [InitPool []] ?w0" by code_simp
  have r: "run [InitPool []] ?w0 = (pool_two, snd (run [InitPool []] ?w0))"
    by (simp add: pool_two_def)
  have av: "available pool_two = [0, 1]" "acquired pool_two = []" by code_simp+
  have ok: "\<forall>c \<in> set (available pool_two @ acquired pool_two). all_succeed c"
    by (simp add: all_succeed_def)
  have o: "close_order in_order pool_two = [] @ 0 # [1]" by code_simp
  have f: "\<not> first_fails 0" by (simp add: first_fails_def)
  note T1 = close_fail_fast [OF default_pool_def l r, of all_succeed in_order 0]
  have s1: "fst (close all_succeed in_order 0 pool_two) = Inr ()"
    "pc_closed (snd (close all_succeed in_order 0 pool_two)) 0 = Inl AttributeError"
    "pc_closed (snd (close all_succeed in_order 0 pool_two)) 1 = Inl AttributeError"
    "available (snd (close all_succeed in_order 0 pool_two)) = []"
    "acquired (snd (close all_succeed in_order 0 pool_two)) = []"
    using T1 ok av by simp_all
  note T2 = close_fail_fast [OF default_pool_def l r, of first_fails in_order 0 "[]" 0 "[1]"]
  have s2: "fst (close first_fails in_order 0 pool_two) = Inl CloseFailed"
    "objs (snd (close first_fails in_order 0 pool_two)) ! 1 = objs pool_two ! 1"
    using T2 o f by simp_all
  note T3 = close_fail_fast [OF default_pool_def l r, of first_fails in_order 1 "[]" 0 "[1]"]
  have s3: "fst (close first_fails in_order 1 pool_two) = Inl CloseFailed"
    "objs (snd (close first_fails in_order 1 pool_two)) ! 0 = objs pool_two ! 0"
    using T3 o f by simp_all
  have s4: "pc_closed (snd (close first_fails in_order 1 pool_two)) 1 = Inl AttributeError"
    by code_simp
  have ok': "all_succeed 0" "all_succeed 1" by (simp_all add: all_succeed_def)
  show ?thesis using l av ok' s1 o f s2 s3 s4 by (simp del: append.simps)
qed

end
